theory Spec2Isabelle
  imports Main "HOL-Library.AList"
begin

section \<open>The configuration parser of build.py\<close>

text \<open>
  The build script reads \<^verbatim>\<open>portfolio.yaml\<close> with a hand-written parser for a small
  subset of YAML and generates pages from templates. This theory embeds the parser
  (\<^verbatim>\<open>parse_yaml\<close>, \<^verbatim>\<open>_get_indent\<close>, \<^verbatim>\<open>_parse_scalar\<close>, \<^verbatim>\<open>_split_array\<close>,
  \<^verbatim>\<open>_parse_block\<close>, \<^verbatim>\<open>_parse_list\<close>) and the page generator
  (\<^verbatim>\<open>generate_page\<close> with its two helpers) and proves properties of them.

  Text is a \<^typ>\<open>string\<close>: a list of characters with code points below 256. The values
  the parser builds are Python's \<^verbatim>\<open>None\<close>, \<^verbatim>\<open>True\<close>/\<^verbatim>\<open>False\<close>, \<^verbatim>\<open>str\<close>, \<^verbatim>\<open>list\<close> and
  \<^verbatim>\<open>dict\<close>. A \<^verbatim>\<open>dict\<close> keeps insertion order and an assignment to a key that is already
  there replaces the value in place, which is what \<^const>\<open>AList.update\<close> does on an
  association list.
\<close>

datatype "value" =
    Null
  | Boolean bool
  | String string
  | Sequence "value list"
  | Mapping "(string \<times> value) list"

text \<open>
  The two exceptions the script can raise on its own values. The interpreter raises
  \<^verbatim>\<open>RecursionError\<close> when calls nest deeper than its recursion limit; the parser recurses
  once for every level of nesting in the document, so its functions carry the number of
  nested calls the interpreter still allows (\<open>depth\<close>): a call made when none is left
  raises, and the body of a call that is made runs with one fewer. The calls counted
  are those of the recursive functions \<^verbatim>\<open>_parse_block\<close>, \<^verbatim>\<open>_parse_list\<close> and
  \<^verbatim>\<open>_parse_scalar\<close>. The calls that do not recurse (\<^verbatim>\<open>_get_indent\<close>, \<^verbatim>\<open>_split_array\<close>,
  the library) and the frame of a list comprehension need a bounded number of further
  frames, which shifts the limit by a constant factor and is left out.
  \<^verbatim>\<open>AttributeError\<close> is raised by the page generator only.
\<close>

datatype py_error = AttributeError | RecursionError

subsection \<open>String primitives of the Python library\<close>

text \<open>
  \<^verbatim>\<open>str.isspace\<close> on one character, for the code points below 256: tab, line feed,
  vertical tab, form feed, carriage return, the four separators 0x1C..0x1F, space,
  NEL (0x85) and the no-break space (0xA0). \<^verbatim>\<open>str.strip()\<close>, \<^verbatim>\<open>str.lstrip()\<close> and the
  regular expression class \<^verbatim>\<open>\s\<close> all use this set.
\<close>

definition isspace :: "char \<Rightarrow> bool" where
  "isspace c \<longleftrightarrow> c \<in> set [CHR 0x09, CHR 0x0A, CHR 0x0B, CHR 0x0C, CHR 0x0D,
                       CHR 0x1C, CHR 0x1D, CHR 0x1E, CHR 0x1F, CHR 0x20,
                       CHR 0x85, CHR 0xA0]"

definition lstrip :: "string \<Rightarrow> string" where
  "lstrip s = dropWhile isspace s"

definition strip :: "string \<Rightarrow> string" where
  "strip s = rev (dropWhile isspace (rev (dropWhile isspace s)))"

definition startswith :: "string \<Rightarrow> string \<Rightarrow> bool" where
  "startswith s p \<longleftrightarrow> take (length p) s = p"

definition endswith :: "string \<Rightarrow> string \<Rightarrow> bool" where
  "endswith s p \<longleftrightarrow> length p \<le> length s \<and> drop (length s - length p) s = p"

text \<open>\<^verbatim>\<open>val[1:-1]\<close>: without the first and the last character; empty when \<^verbatim>\<open>val\<close> has
  fewer than two characters.\<close>

definition interior :: "string \<Rightarrow> string" where
  "interior s = butlast (tl s)"

text \<open>\<^verbatim>\<open>text.split('\n')\<close>: the pieces between line feeds; always at least one piece.\<close>

fun split_lines_acc :: "string \<Rightarrow> string \<Rightarrow> string list" where
  "split_lines_acc cur [] = [cur]"
| "split_lines_acc cur (c # cs) =
     (if c = CHR 0x0A then cur # split_lines_acc [] cs
      else split_lines_acc (cur @ [c]) cs)"

definition split_lines :: "string \<Rightarrow> string list" where
  "split_lines text = split_lines_acc [] text"

text \<open>\<^verbatim>\<open>_get_indent\<close>: the number of leading whitespace characters.\<close>

definition get_indent :: "string \<Rightarrow> int" where
  "get_indent line = int (length line) - int (length (lstrip line))"

text \<open>
  \<^verbatim>\<open>re.match(r'^([^:]+?):\s*(.*)', s)\<close>. The first group is lazy and cannot hold a
  colon, so it is the text before the first colon, and it must be non-empty; \<^verbatim>\<open>\s*\<close>
  is greedy and takes all whitespace after the colon; \<^verbatim>\<open>.\<close> does not match a line
  feed, so the second group stops there. The result is the pair of groups, or
  \<^const>\<open>None\<close> when there is no match.
\<close>

definition match_kv :: "string \<Rightarrow> (string \<times> string) option" where
  "match_kv s =
     (let g1 = takeWhile (\<lambda>c. c \<noteq> CHR '':'') s;
          rest = dropWhile (\<lambda>c. c \<noteq> CHR '':'') s
      in if g1 = [] \<or> rest = [] then None
         else Some (g1, takeWhile (\<lambda>c. c \<noteq> CHR 0x0A) (dropWhile isspace (tl rest))))"

subsection \<open>Inline arrays and scalars\<close>

text \<open>
  The loop of \<^verbatim>\<open>_split_array\<close> over the characters of \<^verbatim>\<open>s\<close>, with its three
  variables \<^verbatim>\<open>items\<close>, \<^verbatim>\<open>current\<close> and \<^verbatim>\<open>in_quote\<close>.
\<close>

fun split_loop :: "string \<Rightarrow> string list \<Rightarrow> string \<Rightarrow> char option \<Rightarrow> string list \<times> string" where
  "split_loop [] items current in_quote = (items, current)"
| "split_loop (ch # s) items current in_quote =
     (if (ch = CHR 0x22 \<or> ch = CHR 0x27) \<and> in_quote = None
        then split_loop s items (current @ [ch]) (Some ch)
      else if Some ch = in_quote
        then split_loop s items (current @ [ch]) None
      else if ch = CHR '','' \<and> in_quote = None
        then split_loop s (items @ [current]) [] in_quote
      else split_loop s items (current @ [ch]) in_quote)"

definition split_array :: "string \<Rightarrow> string list" where
  "split_array s =
     (case split_loop s [] [] None of
        (items, current) \<Rightarrow> if strip current \<noteq> [] then items @ [current] else items)"

text \<open>
  Two observations of the same loop, with the branches of the source: the value of
  \<^verbatim>\<open>in_quote\<close> after the characters of \<^verbatim>\<open>s\<close>, and whether the loop reaches a comma
  while \<^verbatim>\<open>in_quote\<close> is \<^verbatim>\<open>None\<close>, that is, whether it splits anywhere.
\<close>

fun in_quote_after :: "char option \<Rightarrow> string \<Rightarrow> char option" where
  "in_quote_after in_quote [] = in_quote"
| "in_quote_after in_quote (ch # s) =
     (if (ch = CHR 0x22 \<or> ch = CHR 0x27) \<and> in_quote = None
        then in_quote_after (Some ch) s
      else if Some ch = in_quote
        then in_quote_after None s
      else in_quote_after in_quote s)"

fun splits :: "char option \<Rightarrow> string \<Rightarrow> bool" where
  "splits in_quote [] = False"
| "splits in_quote (ch # s) =
     (if (ch = CHR 0x22 \<or> ch = CHR 0x27) \<and> in_quote = None
        then splits (Some ch) s
      else if Some ch = in_quote
        then splits None s
      else if ch = CHR '','' \<and> in_quote = None
        then True
      else splits in_quote s)"

text \<open>
  The list comprehension \<^verbatim>\<open>[f(s) for s in items]\<close> evaluates the calls in order; the first
  one that raises ends it.
\<close>

fun collect :: "(py_error + 'a) list \<Rightarrow> py_error + 'a list" where
  "collect [] = Inr []"
| "collect (r # rs) =
     (case r of
        Inl e \<Rightarrow> Inl e
      | Inr x \<Rightarrow> (case collect rs of Inl e \<Rightarrow> Inl e | Inr xs \<Rightarrow> Inr (x # xs)))"

text \<open>
  \<^verbatim>\<open>_parse_scalar\<close>. The tests are made in the order of the source. Each fragment of an
  inline array is resolved by a nested call.
\<close>

function parse_scalar :: "nat \<Rightarrow> string \<Rightarrow> py_error + value" where
  "parse_scalar depth v =
     (let val = strip v in
      if val = [] then Inr (String [])
      else if val = ''true'' \<or> val = ''True'' then Inr (Boolean True)
      else if val = ''false'' \<or> val = ''False'' then Inr (Boolean False)
      else if val = ''null'' \<or> val = ''~'' then Inr Null
      else if (startswith val [CHR 0x22] \<and> endswith val [CHR 0x22]) \<or>
              (startswith val [CHR 0x27] \<and> endswith val [CHR 0x27])
        then Inr (String (interior val))
      else if startswith val ''['' \<and> endswith val '']''
        then (case collect (map (\<lambda>s. if depth = 0 then Inl RecursionError
                                      else parse_scalar (depth - 1) s)
                             (split_array (interior val))) of
                Inl e \<Rightarrow> Inl e
              | Inr xs \<Rightarrow> Inr (Sequence xs))
      else Inr (String val))"
  by pat_completeness auto
termination
  by (relation "measure (\<lambda>(depth, v). depth)") auto

declare parse_scalar.simps [simp del]

text \<open>The call \<^verbatim>\<open>_parse_scalar(val)\<close> made when \<open>depth\<close> further calls are allowed.\<close>

definition scalar_call :: "nat \<Rightarrow> string \<Rightarrow> py_error + value" where
  "scalar_call depth val =
     (if depth = 0 then Inl RecursionError else parse_scalar (depth - 1) val)"

subsection \<open>The block parser and the list parser\<close>

text \<open>
  The look-ahead loop that follows a key with an empty value, in \<^verbatim>\<open>_parse_block\<close>
  (\<^verbatim>\<open>ni\<close>) and in \<^verbatim>\<open>_parse_list\<close> (\<^verbatim>\<open>nj\<close>):
  \<^verbatim>\<open>while ni < len(lines) and not lines[ni].strip(): ni += 1\<close>.
  It passes blank lines only.
\<close>

function skip_blank :: "string list \<Rightarrow> nat \<Rightarrow> nat" where
  "skip_blank lines ni =
     (if ni < length lines \<and> strip (lines ! ni) = [] then skip_blank lines (ni + 1) else ni)"
  by pat_completeness auto
termination
  by (relation "measure (\<lambda>(lines, ni). length lines - ni)") auto

declare skip_blank.simps [simp del]

text \<open>
  \<^verbatim>\<open>_parse_block\<close>, \<^verbatim>\<open>_parse_list\<close> and the inner loop of \<^verbatim>\<open>_parse_list\<close> that
  collects the further keys of one list item (\<^verbatim>\<open>parse_item\<close>, the loop over \<^verbatim>\<open>j\<close>).
  Each \<^verbatim>\<open>while\<close> loop is a recursive function whose arguments are the loop's
  variables: the index and the container built so far. The functions call each
  other and continue from the index the callee returns, so the recursion is not
  structural in the index. Each body is therefore written once, with the functions it
  calls (itself for the next iteration of its loop) as its first arguments, and the
  parsers are these bodies tied together under a bound on the number of steps in a
  row: one unit for every loop iteration and every call, \<^const>\<open>None\<close> when the bound is
  used up. That a bound of \<open>2 * length lines + 2\<close> is never used up is proved below, as
  is that a larger bound gives the same answer.

  The result of a parser is \<open>Inr\<close> of what the source returns, or \<open>Inl\<close> of the exception
  it raises. \<open>depth\<close> is the number of nested calls still allowed inside the body: the
  next iteration of a loop keeps it, a call of \<^verbatim>\<open>_parse_block\<close> or \<^verbatim>\<open>_parse_list\<close>
  (\<open>call\<close>) or of \<^verbatim>\<open>_parse_scalar\<close> (\<open>scalar_call\<close>) needs one. The statements after a call
  run only when the call has returned (\<open>and_then\<close>).

  A line is read only under the guards of the source (\<^verbatim>\<open>i < len(lines)\<close>), so no
  index is out of range.
\<close>

definition call :: "nat \<Rightarrow> (nat \<Rightarrow> (py_error + 'a) option) \<Rightarrow> (py_error + 'a) option" where
  "call depth f = (if depth = 0 then Some (Inl RecursionError) else f (depth - 1))"

definition and_then ::
  "(py_error + 'a) option \<Rightarrow> ('a \<Rightarrow> (py_error + 'b) option) \<Rightarrow> (py_error + 'b) option" where
  "and_then r f = (case r of None \<Rightarrow> None | Some (Inl e) \<Rightarrow> Some (Inl e) | Some (Inr x) \<Rightarrow> f x)"

type_synonym block_fun =
  "nat \<Rightarrow> string list \<Rightarrow> nat \<Rightarrow> int \<Rightarrow> (string \<times> value) list \<Rightarrow>
     (py_error + value \<times> nat) option"

type_synonym list_fun =
  "nat \<Rightarrow> string list \<Rightarrow> nat \<Rightarrow> int \<Rightarrow> value list \<Rightarrow> (py_error + value \<times> nat) option"

type_synonym item_fun =
  "nat \<Rightarrow> string list \<Rightarrow> nat \<Rightarrow> int \<Rightarrow> (string \<times> value) list \<Rightarrow>
     (py_error + (string \<times> value) list \<times> nat) option"

definition parse_block_body :: "block_fun \<Rightarrow> list_fun \<Rightarrow> block_fun" where
  "parse_block_body p_block p_list depth lines i parent_indent result =
     (if i < length lines then
        let line = lines ! i; trimmed = strip line in
        if trimmed = [] \<or> startswith trimmed ''#''
          then p_block depth lines (i + 1) parent_indent result
        else let indent = get_indent line in
          if indent \<le> parent_indent then Some (Inr (Mapping result, i))
          else if startswith trimmed ''- ''
            then call depth (\<lambda>d. p_list d lines i indent [])
          else (case match_kv trimmed of
             Some (g1, g2) \<Rightarrow>
               let key = strip g1; val = strip g2 in
               if val = [] then
                 let ni = skip_blank lines (i + 1) in
                 if ni < length lines then
                   let ni_indent = get_indent (lines ! ni) in
                   if ni_indent > indent then
                     if startswith (strip (lines ! ni)) ''- '' then
                       and_then (call depth (\<lambda>d. p_list d lines ni ni_indent []))
                         (\<lambda>(v, i'). p_block depth lines i' parent_indent
                                      (AList.update key v result))
                     else
                       and_then (call depth (\<lambda>d. p_block d lines ni indent []))
                         (\<lambda>(v, i'). p_block depth lines i' parent_indent
                                      (AList.update key v result))
                   else p_block depth lines (i + 1) parent_indent
                          (AList.update key (String []) result)
                 else p_block depth lines (i + 1) parent_indent
                        (AList.update key (String []) result)
               else and_then (Some (scalar_call depth val))
                      (\<lambda>v. p_block depth lines (i + 1) parent_indent
                             (AList.update key v result))
           | None \<Rightarrow> p_block depth lines (i + 1) parent_indent result)
      else Some (Inr (Mapping result, i)))"

definition parse_list_body :: "list_fun \<Rightarrow> item_fun \<Rightarrow> list_fun" where
  "parse_list_body p_list p_item depth lines i list_indent result =
     (if i < length lines then
        let line = lines ! i; trimmed = strip line in
        if trimmed = [] \<or> startswith trimmed ''#''
          then p_list depth lines (i + 1) list_indent result
        else let indent = get_indent line in
          if indent < list_indent then Some (Inr (Sequence result, i))
          else if indent > list_indent \<and> \<not> startswith trimmed ''- ''
            then p_list depth lines (i + 1) list_indent result
          else if startswith trimmed ''- '' then
            let content = strip (drop 2 trimmed) in
            (case match_kv content of
               Some (g1, g2) \<Rightarrow>
                 and_then (Some (scalar_call depth (strip g2)))
                   (\<lambda>v. and_then (p_item depth lines (i + 1) indent [(strip g1, v)])
                      (\<lambda>(obj, j). p_list depth lines j list_indent (result @ [Mapping obj])))
             | None \<Rightarrow>
                 and_then (Some (scalar_call depth content))
                   (\<lambda>v. p_list depth lines (i + 1) list_indent (result @ [v])))
          else Some (Inr (Sequence result, i))
      else Some (Inr (Sequence result, i)))"

definition parse_item_body :: "item_fun \<Rightarrow> list_fun \<Rightarrow> item_fun" where
  "parse_item_body p_item p_list depth lines j indent obj =
     (if j < length lines then
        let sub = lines ! j; st = strip sub in
        if st = [] \<or> startswith st ''#''
          then p_item depth lines (j + 1) indent obj
        else let si = get_indent sub in
          if si \<le> indent then Some (Inr (obj, j))
          else if startswith st ''- '' then Some (Inr (obj, j))
          else (case match_kv st of
             Some (g1, g2) \<Rightarrow>
               let sk = strip g1; sv = strip g2 in
               if sv = [] then
                 let nj = skip_blank lines (j + 1) in
                 if nj < length lines \<and> get_indent (lines ! nj) > si \<and>
                    startswith (strip (lines ! nj)) ''- ''
                 then
                   and_then (call depth (\<lambda>d. p_list d lines nj (get_indent (lines ! nj)) []))
                     (\<lambda>(v, j'). p_item depth lines j' indent (AList.update sk v obj))
                 else p_item depth lines (j + 1) indent (AList.update sk (String []) obj)
               else and_then (Some (scalar_call depth sv))
                      (\<lambda>v. p_item depth lines (j + 1) indent (AList.update sk v obj))
           | None \<Rightarrow> p_item depth lines (j + 1) indent obj)
      else Some (Inr (obj, j)))"

fun parse_block :: "nat \<Rightarrow> block_fun"
and parse_list :: "nat \<Rightarrow> list_fun"
and parse_item :: "nat \<Rightarrow> item_fun"
where
  "parse_block 0 = (\<lambda>depth lines i parent_indent result. None)"
| "parse_block (Suc n) = parse_block_body (parse_block n) (parse_list n)"
| "parse_list 0 = (\<lambda>depth lines i list_indent result. None)"
| "parse_list (Suc n) = parse_list_body (parse_list n) (parse_item n)"
| "parse_item 0 = (\<lambda>depth lines j indent obj. None)"
| "parse_item (Suc n) = parse_item_body (parse_item n) (parse_list n)"

text \<open>
  \<^verbatim>\<open>parse_yaml\<close>, run when the interpreter allows \<open>limit\<close> further nested calls: it calls
  the block parser from line 0 with parent indent \<open>-1\<close> and drops the index it returns.
\<close>

definition parse_yaml :: "nat \<Rightarrow> string \<Rightarrow> (py_error + value) option" where
  "parse_yaml limit text =
     (let lines = split_lines text in
      and_then (call limit (\<lambda>d. parse_block (2 * length lines + 2) d lines 0 (- 1) []))
        (\<lambda>(result, i). Some (Inr result)))"

subsection \<open>The page generator\<close>

text \<open>
  \<^verbatim>\<open>generate_page\<close> reads the file system and changes it. The files it can read are a
  map from paths to contents (\<^verbatim>\<open>os.path.exists\<close> is a lookup that succeeds); what it does
  to the outside is the list of its effects in order: the lines it prints, the
  directory it creates and the file it writes. The exception the function can raise
  on the values of the parser is \<^verbatim>\<open>AttributeError\<close>, from calling \<^verbatim>\<open>.get\<close> on an item
  that is not a dict or \<^verbatim>\<open>.startswith\<close> on a link that is not a string; it arises before
  any effect. Failures of the operating system (permissions, a full disk) are not
  modelled.
\<close>

datatype effect =
    Print string
  | MakeDirs string
  | WriteFile string string

type_synonym files = "string \<Rightarrow> string option"

text \<open>\<^verbatim>\<open>os.path.join\<close> of two components on a POSIX system.\<close>

definition path_join :: "string \<Rightarrow> string \<Rightarrow> string" where
  "path_join a b =
     (if startswith b ''/'' then b
      else if a = [] \<or> endswith a ''/'' then a @ b
      else a @ ''/'' @ b)"

text \<open>\<^verbatim>\<open>link.strip('/')\<close>.\<close>

definition strip_slashes :: "string \<Rightarrow> string" where
  "strip_slashes s =
     rev (dropWhile (\<lambda>c. c = CHR ''/'') (rev (dropWhile (\<lambda>c. c = CHR ''/'') s)))"

text \<open>\<^verbatim>\<open>sub in s\<close> on strings.\<close>

fun contains :: "string \<Rightarrow> string \<Rightarrow> bool" where
  "contains [] sub = (sub = [])"
| "contains (c # cs) sub = (startswith (c # cs) sub \<or> contains cs sub)"

text \<open>
  \<^verbatim>\<open>s.replace(old, new)\<close>: every occurrence of \<^verbatim>\<open>old\<close>, from the left and without
  overlap; an empty \<^verbatim>\<open>old\<close> matches before every character and at the end.
\<close>

function replace_from :: "string \<Rightarrow> string \<Rightarrow> string \<Rightarrow> string" where
  "replace_from s old new =
     (if s = [] then []
      else if old \<noteq> [] \<and> startswith s old
        then new @ replace_from (drop (length old) s) old new
      else hd s # replace_from (tl s) old new)"
  by pat_completeness auto
termination
  by (relation "measure (\<lambda>(s, old, new). length s)") auto

declare replace_from.simps [simp del]

definition str_replace :: "string \<Rightarrow> string \<Rightarrow> string \<Rightarrow> string" where
  "str_replace s old new =
     (if old = [] then new @ concat (map (\<lambda>c. c # new) s) else replace_from s old new)"

text \<open>The truth value of a parsed value in a condition (\<^verbatim>\<open>not link\<close>).\<close>

fun truthy :: "value \<Rightarrow> bool" where
  "truthy Null = False"
| "truthy (Boolean b) = b"
| "truthy (String s) = (s \<noteq> [])"
| "truthy (Sequence xs) = (xs \<noteq> [])"
| "truthy (Mapping m) = (m \<noteq> [])"

text \<open>\<^verbatim>\<open>item.get(key, default)\<close>.\<close>

definition dict_get :: "(string \<times> value) list \<Rightarrow> string \<Rightarrow> value \<Rightarrow> value" where
  "dict_get d key dflt = (case map_of d key of None \<Rightarrow> dflt | Some v \<Rightarrow> v)"

definition load_template :: "files \<Rightarrow> string \<Rightarrow> string \<Rightarrow> string option" where
  "load_template files templates_dir name =
     (let path = path_join templates_dir (name @ ''.html'') in files path)"

definition is_manually_managed :: "files \<Rightarrow> string \<Rightarrow> bool" where
  "is_manually_managed files directory =
     (let index = path_join directory ''index.html'' in
      case files index of
        None \<Rightarrow> False
      | Some content \<Rightarrow> contains (take 500 content) ''<!-- managed: manual -->'')"

text \<open>
  \<^verbatim>\<open>f'{title}'\<close> formats the title with \<^verbatim>\<open>str\<close>: a string is itself, \<^verbatim>\<open>True\<close>, \<^verbatim>\<open>False\<close>
  and \<^verbatim>\<open>None\<close> are their names; the text of a list or a dict is Python's \<^verbatim>\<open>repr\<close>,
  which is taken as a parameter.
\<close>

definition format_value :: "(value \<Rightarrow> string) \<Rightarrow> value \<Rightarrow> string" where
  "format_value repr v =
     (case v of
        String s \<Rightarrow> s
      | Boolean b \<Rightarrow> (if b then ''True'' else ''False'')
      | Null \<Rightarrow> ''None''
      | _ \<Rightarrow> repr v)"

text \<open>
  \<^verbatim>\<open>generate_page\<close>. \<^verbatim>\<open>REPO_ROOT\<close> is the directory of the script, a parameter here, and
  \<^verbatim>\<open>TEMPLATES_DIR\<close> is \<^verbatim>\<open>_templates\<close> under it. The result is the path of the file written,
  or \<^const>\<open>None\<close>, together with the effects.
\<close>

definition generate_page ::
  "string \<Rightarrow> (value \<Rightarrow> string) \<Rightarrow> files \<Rightarrow> value \<Rightarrow> string \<Rightarrow>
     py_error + (string option \<times> effect list)" where
  "generate_page repo_root repr files item template_name =
     (case item of
        Mapping d \<Rightarrow>
          let link = dict_get d ''link'' (String []) in
          if \<not> truthy link then Inr (None, [])
          else (case link of
             String l \<Rightarrow>
               if \<not> startswith l ''/'' then Inr (None, [])
               else
                 let dir_name = strip_slashes l;
                     target_dir = path_join repo_root dir_name;
                     target_file = path_join target_dir ''index.html'' in
                 if is_manually_managed files target_dir
                   then Inr (None, [Print (''  SKIP  '' @ dir_name @ ''/ (manually managed)'')])
                 else
                   (case load_template files (path_join repo_root ''_templates'') template_name of
                      Some template \<Rightarrow>
                        if template = []
                          then Inr (None, [Print (''  WARN  No template \"'' @ template_name @
                                 ''\" found for '' @ dir_name @ ''/'')])
                        else
                          let title = dict_get d ''title'' (String ''Page'');
                              html = str_replace template
                                ''<title>Case Study | Portfolio</title>''
                                (''<title>'' @ format_value repr title @ '' | Portfolio</title>'');
                              html = str_replace html
                                ''<meta name=\"description\" content=\"A strategic initiative case study.\">''
                                (''<meta name=\"description\" content=\"'' @ format_value repr title @ ''\">'')
                          in Inr (Some target_file,
                               [MakeDirs target_dir, WriteFile target_file html,
                                Print (''  BUILD '' @ dir_name @ ''/index.html (from '' @
                                  template_name @ '' template)'')])
                    | None \<Rightarrow>
                        Inr (None, [Print (''  WARN  No template \"'' @ template_name @
                          ''\" found for '' @ dir_name @ ''/'')]))
           | _ \<Rightarrow> Inl AttributeError)
      | _ \<Rightarrow> Inl AttributeError)"

subsection \<open>One iteration of each loop\<close>

text \<open>
  What one iteration of each of the three loops does with the line at the index, as
  a value: the tests are those of the loop body, in the same order. The bodies are
  a case distinction on this value (\<open>parse_block_body_action\<close> and the two lemmas
  after it, below), which is how the proofs read them. \<open>BScalar\<close> carries the key and
  the text handed to \<^verbatim>\<open>_parse_scalar\<close>, \<open>BEmpty\<close> is a key whose value is the empty
  string, \<open>BNestList\<close> and \<open>BNestBlock\<close> carry the key, the start index and the indent
  of the nested call.
\<close>

datatype block_action =
    BEnd
  | BSkip
  | BList int
  | BScalar string string
  | BEmpty string
  | BNestList string nat int
  | BNestBlock string nat int

definition block_action :: "string list \<Rightarrow> nat \<Rightarrow> int \<Rightarrow> block_action" where
  "block_action lines i parent_indent =
     (if i < length lines then
        let line = lines ! i; trimmed = strip line in
        if trimmed = [] \<or> startswith trimmed ''#'' then BSkip
        else let indent = get_indent line in
          if indent \<le> parent_indent then BEnd
          else if startswith trimmed ''- '' then BList indent
          else (case match_kv trimmed of
             Some (g1, g2) \<Rightarrow>
               let key = strip g1; val = strip g2 in
               if val = [] then
                 let ni = skip_blank lines (i + 1) in
                 if ni < length lines then
                   let ni_indent = get_indent (lines ! ni) in
                   if ni_indent > indent then
                     if startswith (strip (lines ! ni)) ''- ''
                     then BNestList key ni ni_indent
                     else BNestBlock key ni indent
                   else BEmpty key
                 else BEmpty key
               else BScalar key val
           | None \<Rightarrow> BSkip)
      else BEnd)"

datatype list_action =
    LEnd
  | LSkip
  | LItemMap string string int
  | LItemScalar string

definition list_action :: "string list \<Rightarrow> nat \<Rightarrow> int \<Rightarrow> list_action" where
  "list_action lines i list_indent =
     (if i < length lines then
        let line = lines ! i; trimmed = strip line in
        if trimmed = [] \<or> startswith trimmed ''#'' then LSkip
        else let indent = get_indent line in
          if indent < list_indent then LEnd
          else if indent > list_indent \<and> \<not> startswith trimmed ''- '' then LSkip
          else if startswith trimmed ''- '' then
            let content = strip (drop 2 trimmed) in
            (case match_kv content of
               Some (g1, g2) \<Rightarrow> LItemMap (strip g1) (strip g2) indent
             | None \<Rightarrow> LItemScalar content)
          else LEnd
      else LEnd)"

datatype item_action =
    IEnd
  | ISkip
  | IScalar string string
  | IEmpty string
  | INestList string nat int

definition item_action :: "string list \<Rightarrow> nat \<Rightarrow> int \<Rightarrow> item_action" where
  "item_action lines j indent =
     (if j < length lines then
        let sub = lines ! j; st = strip sub in
        if st = [] \<or> startswith st ''#'' then ISkip
        else let si = get_indent sub in
          if si \<le> indent then IEnd
          else if startswith st ''- '' then IEnd
          else (case match_kv st of
             Some (g1, g2) \<Rightarrow>
               let sk = strip g1; sv = strip g2 in
               if sv = [] then
                 let nj = skip_blank lines (j + 1) in
                 if nj < length lines \<and> get_indent (lines ! nj) > si \<and>
                    startswith (strip (lines ! nj)) ''- ''
                 then INestList sk nj (get_indent (lines ! nj))
                 else IEmpty sk
               else IScalar sk sv
           | None \<Rightarrow> ISkip)
      else IEnd)"

subsection \<open>The lines a block's loop visits\<close>

text \<open>
  A line at which the loop of \<^verbatim>\<open>_parse_block\<close> hands over to the list parser: it is
  not blank, not a comment, indented deeper than the parent, and begins with the
  dash-space marker (lines 74 to 82 of the source).
\<close>

definition dash_line :: "int \<Rightarrow> string \<Rightarrow> bool" where
  "dash_line parent_indent line \<longleftrightarrow>
     strip line \<noteq> [] \<and> \<not> startswith (strip line) ''#'' \<and>
     parent_indent < get_indent line \<and> startswith (strip line) ''- ''"

text \<open>
  The values of \<^verbatim>\<open>i\<close> at the head of the \<^verbatim>\<open>while\<close> loop of one call of
  \<^verbatim>\<open>_parse_block\<close> at which the body runs, in order: the lines of the block itself,
  without the lines that the nested calls consume. The list ends where the loop ends:
  at a \<^verbatim>\<open>return\<close>, or where a call raises. \<open>action_key\<close> is the key an iteration assigns
  to, if any, and \<open>assigned_value\<close> is the value that the iteration at line \<open>j\<close> assigns:
  the scalar, the empty string, or what the nested call returns.
\<close>

fun block_heads :: "nat \<Rightarrow> nat \<Rightarrow> string list \<Rightarrow> nat \<Rightarrow> int \<Rightarrow> nat list" where
  "block_heads 0 depth lines i parent_indent = []"
| "block_heads (Suc n) depth lines i parent_indent =
     (if i < length lines then
        i # (case block_action lines i parent_indent of
               BEnd \<Rightarrow> []
             | BSkip \<Rightarrow> block_heads n depth lines (i + 1) parent_indent
             | BList ind \<Rightarrow> []
             | BScalar k val \<Rightarrow>
                 (case scalar_call depth val of
                    Inl e \<Rightarrow> []
                  | Inr v \<Rightarrow> block_heads n depth lines (i + 1) parent_indent)
             | BEmpty k \<Rightarrow> block_heads n depth lines (i + 1) parent_indent
             | BNestList k ni ind \<Rightarrow>
                 (case call depth (\<lambda>d. parse_list n d lines ni ind []) of
                    Some (Inr (v, i')) \<Rightarrow> block_heads n depth lines i' parent_indent
                  | _ \<Rightarrow> [])
             | BNestBlock k ni ind \<Rightarrow>
                 (case call depth (\<lambda>d. parse_block n d lines ni ind []) of
                    Some (Inr (v, i')) \<Rightarrow> block_heads n depth lines i' parent_indent
                  | _ \<Rightarrow> []))
      else [])"


definition assigned_value :: "nat \<Rightarrow> string list \<Rightarrow> nat \<Rightarrow> int \<Rightarrow> value option" where
  "assigned_value depth lines j parent_indent =
     (case block_action lines j parent_indent of
        BScalar k val \<Rightarrow>
          (case scalar_call depth val of Inl e \<Rightarrow> None | Inr v \<Rightarrow> Some v)
      | BEmpty k \<Rightarrow> Some (String [])
      | BNestList k ni ind \<Rightarrow>
          (case call depth (\<lambda>d. parse_list (2 * length lines + 2) d lines ni ind []) of
             Some (Inr (v, i')) \<Rightarrow> Some v
           | _ \<Rightarrow> None)
      | BNestBlock k ni ind \<Rightarrow>
          (case call depth (\<lambda>d. parse_block (2 * length lines + 2) d lines ni ind []) of
             Some (Inr (v, i')) \<Rightarrow> Some v
           | _ \<Rightarrow> None)
      | _ \<Rightarrow> None)"

text \<open>
  A line at which the loop of \<^verbatim>\<open>_parse_block\<close> finds \<open>key\<close> with an empty value and looks
  ahead for what the value is (lines 83 to 88 of the source).
\<close>

definition empty_key_line :: "int \<Rightarrow> string \<Rightarrow> string \<Rightarrow> bool" where
  "empty_key_line parent_indent line key \<longleftrightarrow>
     strip line \<noteq> [] \<and> \<not> startswith (strip line) ''#'' \<and>
     parent_indent < get_indent line \<and> \<not> startswith (strip line) ''- '' \<and>
     (case match_kv (strip line) of
        Some (g1, g2) \<Rightarrow> strip g1 = key \<and> strip g2 = []
      | None \<Rightarrow> False)"

text \<open>
  The condition under which \<^verbatim>\<open>_parse_scalar\<close> reaches its inline-array branch, and the
  text of \<open>n\<close> opening brackets followed by \<open>n\<close> closing ones.
\<close>

definition is_array :: "string \<Rightarrow> bool" where
  "is_array v \<longleftrightarrow>
     (let val = strip v in
      val \<noteq> [] \<and> val \<noteq> ''true'' \<and> val \<noteq> ''True'' \<and> val \<noteq> ''false'' \<and> val \<noteq> ''False'' \<and>
      val \<noteq> ''null'' \<and> val \<noteq> ''~'' \<and>
      \<not> ((startswith val [CHR 0x22] \<and> endswith val [CHR 0x22]) \<or>
         (startswith val [CHR 0x27] \<and> endswith val [CHR 0x27])) \<and>
      startswith val ''['' \<and> endswith val '']'')"

definition brackets :: "nat \<Rightarrow> string" where
  "brackets n = replicate n (CHR ''['') @ replicate n (CHR '']'')"

section \<open>Lemmas\<close>

subsection \<open>Lengths of the pieces of a string\<close>

lemma split_loop_length:
  "split_loop s items cur q = (its, c) \<Longrightarrow>
     length c \<le> length cur + length s \<and>
     (\<forall>x \<in> set its. x \<in> set items \<or> length x \<le> length cur + length s)"
proof (induction s arbitrary: items cur q)
  case Nil
  then show ?case by auto
next
  case (Cons ch s)
  then show ?case
    by (fastforce split: if_splits)
qed

lemma split_array_length: "x \<in> set (split_array s) \<Longrightarrow> length x \<le> length s"
proof -
  assume a: "x \<in> set (split_array s)"
  obtain its c where sl: "split_loop s [] [] None = (its, c)"
    by (cases "split_loop s [] [] None")
  from split_loop_length [OF sl] have "length c \<le> length s" "\<forall>x \<in> set its. length x \<le> length s"
    by auto
  with a sl show ?thesis
    by (auto simp: split_array_def split: if_splits)
qed

lemma strip_length: "length (strip s) \<le> length s"
proof -
  have "length (strip s) \<le> length (dropWhile isspace s)"
    unfolding strip_def by (metis length_dropWhile_le length_rev)
  also have "\<dots> \<le> length s"
    by (rule length_dropWhile_le)
  finally show ?thesis .
qed

lemma interior_length: "s \<noteq> [] \<Longrightarrow> length (interior s) < length s"
  by (cases s) (auto simp: interior_def)

subsection \<open>The loop bodies by cases\<close>

lemma parse_block_body_action:
  "parse_block_body pb pl d lines i p acc =
     (case block_action lines i p of
        BEnd \<Rightarrow> Some (Inr (Mapping acc, i))
      | BSkip \<Rightarrow> pb d lines (i + 1) p acc
      | BList ind \<Rightarrow> call d (\<lambda>d'. pl d' lines i ind [])
      | BScalar k val \<Rightarrow>
          and_then (Some (scalar_call d val))
            (\<lambda>v. pb d lines (i + 1) p (AList.update k v acc))
      | BEmpty k \<Rightarrow> pb d lines (i + 1) p (AList.update k (String []) acc)
      | BNestList k ni ind \<Rightarrow>
          and_then (call d (\<lambda>d'. pl d' lines ni ind []))
            (\<lambda>(v, i'). pb d lines i' p (AList.update k v acc))
      | BNestBlock k ni ind \<Rightarrow>
          and_then (call d (\<lambda>d'. pb d' lines ni ind []))
            (\<lambda>(v, i'). pb d lines i' p (AList.update k v acc)))"
  by (simp add: parse_block_body_def block_action_def Let_def split: option.split)

lemma parse_list_body_action:
  "parse_list_body pl pi d lines i li acc =
     (case list_action lines i li of
        LEnd \<Rightarrow> Some (Inr (Sequence acc, i))
      | LSkip \<Rightarrow> pl d lines (i + 1) li acc
      | LItemMap k val ind \<Rightarrow>
          and_then (Some (scalar_call d val))
            (\<lambda>v. and_then (pi d lines (i + 1) ind [(k, v)])
               (\<lambda>(obj, j). pl d lines j li (acc @ [Mapping obj])))
      | LItemScalar val \<Rightarrow>
          and_then (Some (scalar_call d val)) (\<lambda>v. pl d lines (i + 1) li (acc @ [v])))"
  by (simp add: parse_list_body_def list_action_def Let_def split: option.split)

lemma parse_item_body_action:
  "parse_item_body pi pl d lines j ind obj =
     (case item_action lines j ind of
        IEnd \<Rightarrow> Some (Inr (obj, j))
      | ISkip \<Rightarrow> pi d lines (j + 1) ind obj
      | IScalar k val \<Rightarrow>
          and_then (Some (scalar_call d val))
            (\<lambda>v. pi d lines (j + 1) ind (AList.update k v obj))
      | IEmpty k \<Rightarrow> pi d lines (j + 1) ind (AList.update k (String []) obj)
      | INestList k nj li \<Rightarrow>
          and_then (call d (\<lambda>d'. pl d' lines nj li []))
            (\<lambda>(v, j'). pi d lines j' ind (AList.update k v obj)))"
  by (auto simp: parse_item_body_def item_action_def Let_def split: option.split)

lemma skip_blank_ge: "ni \<le> skip_blank lines ni"
proof (induction lines ni rule: skip_blank.induct)
  case (1 lines ni)
  show ?case
  proof (cases "ni < length lines \<and> strip (lines ! ni) = []")
    case True
    with 1 have "ni + 1 \<le> skip_blank lines (ni + 1)" by simp
    moreover from True have "skip_blank lines ni = skip_blank lines (ni + 1)"
      by (subst skip_blank.simps) simp
    ultimately show ?thesis by simp
  next
    case False
    then have "skip_blank lines ni = ni" by (subst skip_blank.simps) auto
    then show ?thesis by simp
  qed
qed

lemma and_then_Inr:
  "and_then r f = Some (Inr y) \<longleftrightarrow> (\<exists>x. r = Some (Inr x) \<and> f x = Some (Inr y))"
  by (auto simp: and_then_def split: option.splits sum.splits)

lemma and_then_Inl:
  "and_then r f = Some (Inl e) \<longleftrightarrow>
     r = Some (Inl e) \<or> (\<exists>x. r = Some (Inr x) \<and> f x = Some (Inl e))"
  by (auto simp: and_then_def split: option.splits sum.splits)

lemma and_then_None:
  "and_then r f = None \<longleftrightarrow> r = None \<or> (\<exists>x. r = Some (Inr x) \<and> f x = None)"
  by (auto simp: and_then_def split: option.splits sum.splits)

lemma and_then_simps [simp]:
  "and_then None f = None"
  "and_then (Some (Inl e)) f = Some (Inl e)"
  "and_then (Some (Inr x)) f = f x"
  by (simp_all add: and_then_def)

lemma call_simps:
  "call 0 f = Some (Inl RecursionError)"
  "call (Suc d) f = f d"
  "0 < d \<Longrightarrow> call d f = f (d - 1)"
  by (simp_all add: call_def)

lemma block_action_nest_list: "block_action lines i p = BNestList k ni ind \<Longrightarrow> i < ni"
  using skip_blank_ge [of "i + 1" lines]
  by (auto simp: block_action_def Let_def split: if_splits option.splits)

lemma block_action_nest_block: "block_action lines i p = BNestBlock k ni ind \<Longrightarrow> i < ni"
  using skip_blank_ge [of "i + 1" lines]
  by (auto simp: block_action_def Let_def split: if_splits option.splits)

lemma item_action_nest_list: "item_action lines j ind = INestList k nj li \<Longrightarrow> j < nj"
  using skip_blank_ge [of "j + 1" lines]
  by (auto simp: item_action_def Let_def split: if_splits option.splits)

lemma block_action_in_range: "block_action lines i p \<noteq> BEnd \<Longrightarrow> i < length lines"
  by (cases "i < length lines") (simp_all add: block_action_def)

lemma list_action_in_range: "list_action lines i p \<noteq> LEnd \<Longrightarrow> i < length lines"
  by (cases "i < length lines") (simp_all add: list_action_def)

lemma item_action_in_range: "item_action lines i p \<noteq> IEnd \<Longrightarrow> i < length lines"
  by (cases "i < length lines") (simp_all add: item_action_def)

lemma parse_zero [simp]:
  "parse_block 0 d lines i p acc = None"
  "parse_list 0 d lines i p vs = None"
  "parse_item 0 d lines i p acc = None"
  by simp_all

lemma parse_block_Suc:
  "parse_block (Suc n) d lines i p acc =
     (case block_action lines i p of
        BEnd \<Rightarrow> Some (Inr (Mapping acc, i))
      | BSkip \<Rightarrow> parse_block n d lines (i + 1) p acc
      | BList ind \<Rightarrow> call d (\<lambda>d'. parse_list n d' lines i ind [])
      | BScalar k val \<Rightarrow>
          and_then (Some (scalar_call d val))
            (\<lambda>v. parse_block n d lines (i + 1) p (AList.update k v acc))
      | BEmpty k \<Rightarrow> parse_block n d lines (i + 1) p (AList.update k (String []) acc)
      | BNestList k ni ind \<Rightarrow>
          and_then (call d (\<lambda>d'. parse_list n d' lines ni ind []))
            (\<lambda>(v, i'). parse_block n d lines i' p (AList.update k v acc))
      | BNestBlock k ni ind \<Rightarrow>
          and_then (call d (\<lambda>d'. parse_block n d' lines ni ind []))
            (\<lambda>(v, i'). parse_block n d lines i' p (AList.update k v acc)))"
  by (simp add: parse_block_body_action)

lemma parse_list_Suc:
  "parse_list (Suc n) d lines i li acc =
     (case list_action lines i li of
        LEnd \<Rightarrow> Some (Inr (Sequence acc, i))
      | LSkip \<Rightarrow> parse_list n d lines (i + 1) li acc
      | LItemMap k val ind \<Rightarrow>
          and_then (Some (scalar_call d val))
            (\<lambda>v. and_then (parse_item n d lines (i + 1) ind [(k, v)])
               (\<lambda>(obj, j). parse_list n d lines j li (acc @ [Mapping obj])))
      | LItemScalar val \<Rightarrow>
          and_then (Some (scalar_call d val))
            (\<lambda>v. parse_list n d lines (i + 1) li (acc @ [v])))"
  by (simp add: parse_list_body_action)

lemma parse_item_Suc:
  "parse_item (Suc n) d lines j ind obj =
     (case item_action lines j ind of
        IEnd \<Rightarrow> Some (Inr (obj, j))
      | ISkip \<Rightarrow> parse_item n d lines (j + 1) ind obj
      | IScalar k val \<Rightarrow>
          and_then (Some (scalar_call d val))
            (\<lambda>v. parse_item n d lines (j + 1) ind (AList.update k v obj))
      | IEmpty k \<Rightarrow> parse_item n d lines (j + 1) ind (AList.update k (String []) obj)
      | INestList k nj li \<Rightarrow>
          and_then (call d (\<lambda>d'. parse_list n d' lines nj li []))
            (\<lambda>(v, j'). parse_item n d lines j' ind (AList.update k v obj)))"
  by (simp add: parse_item_body_action)

declare parse_block.simps [simp del] parse_list.simps [simp del] parse_item.simps [simp del]

lemma parse_index_mono:
  "(\<forall>d i p acc v i'. parse_block n d lines i p acc = Some (Inr (v, i')) \<longrightarrow> i \<le> i') \<and>
   (\<forall>d i p acc v i'. parse_list n d lines i p acc = Some (Inr (v, i')) \<longrightarrow> i \<le> i') \<and>
   (\<forall>d i p acc v i'. parse_item n d lines i p acc = Some (Inr (v, i')) \<longrightarrow> i \<le> i')"
proof (induction n)
  case 0
  show ?case by simp
next
  case (Suc n)
  then have B: "\<And>d i p acc v i'. parse_block n d lines i p acc = Some (Inr (v, i')) \<Longrightarrow> i \<le> i'"
    and L: "\<And>d i p acc v i'. parse_list n d lines i p acc = Some (Inr (v, i')) \<Longrightarrow> i \<le> i'"
    and I: "\<And>d i p acc v i'. parse_item n d lines i p acc = Some (Inr (v, i')) \<Longrightarrow> i \<le> i'"
    by blast+
  have "i \<le> i'" if "parse_block (Suc n) d lines i p acc = Some (Inr (v, i'))" for d i p acc v i'
  proof (cases "block_action lines i p")
    case (BNestList k ni ind)
    with that show ?thesis
      using block_action_nest_list [OF BNestList]
      by (fastforce simp: parse_block_Suc and_then_Inr call_def split: if_splits dest: B L)
  next
    case (BNestBlock k ni ind)
    with that show ?thesis
      using block_action_nest_block [OF BNestBlock]
      by (fastforce simp: parse_block_Suc and_then_Inr call_def split: if_splits dest: B L)
  qed (use that in \<open>fastforce simp: parse_block_Suc and_then_Inr call_def split: if_splits dest: B L\<close>)+
  moreover have "i \<le> i'" if "parse_list (Suc n) d lines i p acc = Some (Inr (v, i'))" for d i p acc v i'
    using that
    by (cases "list_action lines i p")
      (fastforce simp: parse_list_Suc and_then_Inr dest: L I)+
  moreover have "i \<le> i'" if "parse_item (Suc n) d lines i p acc = Some (Inr (v, i'))" for d i p acc v i'
  proof (cases "item_action lines i p")
    case (INestList k nj li)
    with that show ?thesis
      using item_action_nest_list [OF INestList]
      by (fastforce simp: parse_item_Suc and_then_Inr call_def split: if_splits dest: L I)
  qed (use that in \<open>fastforce simp: parse_item_Suc and_then_Inr dest: L I\<close>)+
  ultimately show ?case by blast
qed

lemma parse_block_index: "parse_block n d lines i p acc = Some (Inr (v, i')) \<Longrightarrow> i \<le> i'"
  using parse_index_mono by blast

lemma parse_list_index: "parse_list n d lines i p acc = Some (Inr (v, i')) \<Longrightarrow> i \<le> i'"
  using parse_index_mono by blast

lemma parse_item_index: "parse_item n d lines i p acc = Some (Inr (v, i')) \<Longrightarrow> i \<le> i'"
  using parse_index_mono by blast

subsection \<open>Enough steps return\<close>

text \<open>
  With a bound of twice the number of remaining lines plus two on the steps in a row,
  each loop returns or raises: the bound is not used up.
\<close>

lemma and_then_returns:
  "r \<noteq> None \<Longrightarrow> (\<And>x. r = Some (Inr x) \<Longrightarrow> f x \<noteq> None) \<Longrightarrow> and_then r f \<noteq> None"
  by (auto simp: and_then_def split: option.splits sum.splits)

lemma call_returns: "(\<And>d'. f d' \<noteq> None) \<Longrightarrow> call d f \<noteq> None"
  by (simp add: call_def)

lemma parse_returns:
  "(\<forall>d i p acc. 2 * (length lines - i) + 2 \<le> n \<longrightarrow> parse_block n d lines i p acc \<noteq> None) \<and>
   (\<forall>d i p acc. 2 * (length lines - i) + 1 \<le> n \<longrightarrow> parse_list n d lines i p acc \<noteq> None) \<and>
   (\<forall>d j p obj. 2 * (length lines - j) + 1 \<le> n \<longrightarrow> parse_item n d lines j p obj \<noteq> None)"
proof (induction n)
  case 0
  show ?case by simp
next
  case (Suc n)
  then have B: "\<And>d i p acc. 2 * (length lines - i) + 2 \<le> n \<Longrightarrow>
      parse_block n d lines i p acc \<noteq> None"
    and L: "\<And>d i p acc. 2 * (length lines - i) + 1 \<le> n \<Longrightarrow>
      parse_list n d lines i p acc \<noteq> None"
    and I: "\<And>d j p obj. 2 * (length lines - j) + 1 \<le> n \<Longrightarrow>
      parse_item n d lines j p obj \<noteq> None"
    by blast+
  have blk: "parse_block (Suc n) d lines i p acc \<noteq> None"
    if fuel: "2 * (length lines - i) + 2 \<le> Suc n" for d i p acc
  proof (cases "block_action lines i p")
    case BEnd
    then show ?thesis by (simp add: parse_block_Suc)
  next
    case BSkip
    with block_action_in_range [of lines i p] have "i < length lines" by simp
    with fuel have "2 * (length lines - (i + 1)) + 2 \<le> n" by arith
    from B [OF this] BSkip show ?thesis
      by (simp add: parse_block_Suc)
  next
    case (BList ind)
    with block_action_in_range [of lines i p] have "i < length lines" by simp
    with fuel have "2 * (length lines - i) + 1 \<le> n" by arith
    from L [OF this] BList show ?thesis
      by (simp add: parse_block_Suc call_returns)
  next
    case (BScalar k val)
    with block_action_in_range [of lines i p] have "i < length lines" by simp
    with fuel have "2 * (length lines - (i + 1)) + 2 \<le> n" by arith
    from B [OF this] BScalar show ?thesis
      by (simp add: parse_block_Suc and_then_returns)
  next
    case (BEmpty k)
    with block_action_in_range [of lines i p] have "i < length lines" by simp
    with fuel have "2 * (length lines - (i + 1)) + 2 \<le> n" by arith
    from B [OF this] BEmpty show ?thesis
      by (simp add: parse_block_Suc)
  next
    case (BNestList k ni ind)
    with block_action_in_range [of lines i p] have il: "i < length lines" by simp
    from BNestList have ni: "i < ni" by (rule block_action_nest_list)
    with il fuel have "2 * (length lines - ni) + 1 \<le> n" by arith
    from L [OF this] have 1: "call d (\<lambda>d'. parse_list n d' lines ni ind []) \<noteq> None"
      by (simp add: call_returns)
    have 2: "parse_block n d lines i' p (AList.update k v acc) \<noteq> None"
      if "call d (\<lambda>d'. parse_list n d' lines ni ind []) = Some (Inr (v, i'))" for v i'
    proof -
      from that have "ni \<le> i'"
        by (auto simp: call_def split: if_splits dest: parse_list_index)
      with ni il fuel have "2 * (length lines - i') + 2 \<le> n" by arith
      from B [OF this] show ?thesis .
    qed
    have "and_then (call d (\<lambda>d'. parse_list n d' lines ni ind []))
        (\<lambda>(v, i'). parse_block n d lines i' p (AList.update k v acc)) \<noteq> None"
    proof (rule and_then_returns [OF 1])
      fix x assume "call d (\<lambda>d'. parse_list n d' lines ni ind []) = Some (Inr x)"
      then show "(case x of (v, i') \<Rightarrow> parse_block n d lines i' p (AList.update k v acc)) \<noteq> None"
        using 2 by (cases x) simp
    qed
    with BNestList show ?thesis
      by (simp add: parse_block_Suc)
  next
    case (BNestBlock k ni ind)
    with block_action_in_range [of lines i p] have il: "i < length lines" by simp
    from BNestBlock have ni: "i < ni" by (rule block_action_nest_block)
    with il fuel have "2 * (length lines - ni) + 2 \<le> n" by arith
    from B [OF this] have 1: "call d (\<lambda>d'. parse_block n d' lines ni ind []) \<noteq> None"
      by (simp add: call_returns)
    have 2: "parse_block n d lines i' p (AList.update k v acc) \<noteq> None"
      if "call d (\<lambda>d'. parse_block n d' lines ni ind []) = Some (Inr (v, i'))" for v i'
    proof -
      from that have "ni \<le> i'"
        by (auto simp: call_def split: if_splits dest: parse_block_index)
      with ni il fuel have "2 * (length lines - i') + 2 \<le> n" by arith
      from B [OF this] show ?thesis .
    qed
    have "and_then (call d (\<lambda>d'. parse_block n d' lines ni ind []))
        (\<lambda>(v, i'). parse_block n d lines i' p (AList.update k v acc)) \<noteq> None"
    proof (rule and_then_returns [OF 1])
      fix x assume "call d (\<lambda>d'. parse_block n d' lines ni ind []) = Some (Inr x)"
      then show "(case x of (v, i') \<Rightarrow> parse_block n d lines i' p (AList.update k v acc)) \<noteq> None"
        using 2 by (cases x) simp
    qed
    with BNestBlock show ?thesis
      by (simp add: parse_block_Suc)
  qed
  have lst: "parse_list (Suc n) d lines i p acc \<noteq> None"
    if fuel: "2 * (length lines - i) + 1 \<le> Suc n" for d i p acc
  proof (cases "list_action lines i p")
    case LEnd
    then show ?thesis by (simp add: parse_list_Suc)
  next
    case LSkip
    with list_action_in_range [of lines i p] have "i < length lines" by simp
    with fuel have "2 * (length lines - (i + 1)) + 1 \<le> n" by arith
    from L [OF this] LSkip show ?thesis
      by (simp add: parse_list_Suc)
  next
    case (LItemMap k val ind)
    with list_action_in_range [of lines i p] have il: "i < length lines" by simp
    with fuel have f1: "2 * (length lines - (i + 1)) + 1 \<le> n" by arith
    have 2: "parse_list n d lines j p (acc @ [Mapping obj]) \<noteq> None"
      if "parse_item n d lines (i + 1) ind [(k, v)] = Some (Inr (obj, j))" for v obj j
    proof -
      from that have "i + 1 \<le> j" by (rule parse_item_index)
      with il fuel have "2 * (length lines - j) + 1 \<le> n" by arith
      from L [OF this] show ?thesis .
    qed
    have "and_then (parse_item n d lines (i + 1) ind [(k, v)])
        (\<lambda>(obj, j). parse_list n d lines j p (acc @ [Mapping obj])) \<noteq> None" for v
    proof (rule and_then_returns [OF I [OF f1]])
      fix x assume "parse_item n d lines (i + 1) ind [(k, v)] = Some (Inr x)"
      then show "(case x of (obj, j) \<Rightarrow> parse_list n d lines j p (acc @ [Mapping obj])) \<noteq> None"
        using 2 by (cases x) simp
    qed
    with LItemMap show ?thesis
      by (simp add: parse_list_Suc and_then_returns)
  next
    case (LItemScalar val)
    with list_action_in_range [of lines i p] have "i < length lines" by simp
    with fuel have "2 * (length lines - (i + 1)) + 1 \<le> n" by arith
    from L [OF this] LItemScalar show ?thesis
      by (simp add: parse_list_Suc and_then_returns)
  qed
  have itm: "parse_item (Suc n) d lines j p obj \<noteq> None"
    if fuel: "2 * (length lines - j) + 1 \<le> Suc n" for d j p obj
  proof (cases "item_action lines j p")
    case IEnd
    then show ?thesis by (simp add: parse_item_Suc)
  next
    case ISkip
    with item_action_in_range [of lines j p] have "j < length lines" by simp
    with fuel have "2 * (length lines - (j + 1)) + 1 \<le> n" by arith
    from I [OF this] ISkip show ?thesis
      by (simp add: parse_item_Suc)
  next
    case (IScalar k val)
    with item_action_in_range [of lines j p] have "j < length lines" by simp
    with fuel have "2 * (length lines - (j + 1)) + 1 \<le> n" by arith
    from I [OF this] IScalar show ?thesis
      by (simp add: parse_item_Suc and_then_returns)
  next
    case (IEmpty k)
    with item_action_in_range [of lines j p] have "j < length lines" by simp
    with fuel have "2 * (length lines - (j + 1)) + 1 \<le> n" by arith
    from I [OF this] IEmpty show ?thesis
      by (simp add: parse_item_Suc)
  next
    case (INestList k nj li)
    with item_action_in_range [of lines j p] have jl: "j < length lines" by simp
    from INestList have nj: "j < nj" by (rule item_action_nest_list)
    with jl fuel have "2 * (length lines - nj) + 1 \<le> n" by arith
    from L [OF this] have 1: "call d (\<lambda>d'. parse_list n d' lines nj li []) \<noteq> None"
      by (simp add: call_returns)
    have 2: "parse_item n d lines j' p (AList.update k v obj) \<noteq> None"
      if "call d (\<lambda>d'. parse_list n d' lines nj li []) = Some (Inr (v, j'))" for v j'
    proof -
      from that have "nj \<le> j'"
        by (auto simp: call_def split: if_splits dest: parse_list_index)
      with nj jl fuel have "2 * (length lines - j') + 1 \<le> n" by arith
      from I [OF this] show ?thesis .
    qed
    have "and_then (call d (\<lambda>d'. parse_list n d' lines nj li []))
        (\<lambda>(v, j'). parse_item n d lines j' p (AList.update k v obj)) \<noteq> None"
    proof (rule and_then_returns [OF 1])
      fix x assume "call d (\<lambda>d'. parse_list n d' lines nj li []) = Some (Inr x)"
      then show "(case x of (v, j') \<Rightarrow> parse_item n d lines j' p (AList.update k v obj)) \<noteq> None"
        using 2 by (cases x) simp
    qed
    with INestList show ?thesis
      by (simp add: parse_item_Suc)
  qed
  from blk lst itm show ?case by blast
qed

subsection \<open>Scalars and the recursion depth\<close>

lemma parse_scalar_eq:
  "parse_scalar depth v =
     (let val = strip v in
      if val = [] then Inr (String [])
      else if val = ''true'' \<or> val = ''True'' then Inr (Boolean True)
      else if val = ''false'' \<or> val = ''False'' then Inr (Boolean False)
      else if val = ''null'' \<or> val = ''~'' then Inr Null
      else if (startswith val [CHR 0x22] \<and> endswith val [CHR 0x22]) \<or>
              (startswith val [CHR 0x27] \<and> endswith val [CHR 0x27])
        then Inr (String (interior val))
      else if startswith val ''['' \<and> endswith val '']''
        then (case collect (map (scalar_call depth) (split_array (interior val))) of
                Inl e \<Rightarrow> Inl e
              | Inr xs \<Rightarrow> Inr (Sequence xs))
      else Inr (String val))"
  unfolding scalar_call_def [abs_def] by (rule parse_scalar.simps)

lemma collect_Inl: "collect rs = Inl e \<Longrightarrow> Inl e \<in> set rs"
  by (induction rs) (auto split: sum.splits)

lemma collect_map_Inr: "collect (map Inr xs) = Inr xs"
  by (induction xs) auto

lemma collect_InrD: "collect rs = Inr xs \<Longrightarrow> rs = map Inr xs"
  by (induction rs arbitrary: xs) (auto split: sum.splits)

lemma collect_all_Inr: "(\<forall>r \<in> set rs. \<exists>x. r = Inr x) \<Longrightarrow> \<exists>xs. collect rs = Inr xs"
  by (induction rs) (auto split: sum.splits)

lemma parse_scalar_array:
  "is_array v \<Longrightarrow>
   parse_scalar d v =
     (case collect (map (scalar_call d) (split_array (interior (strip v)))) of
        Inl e \<Rightarrow> Inl e
      | Inr xs \<Rightarrow> Inr (Sequence xs))"
  by (auto simp: parse_scalar_eq [of d v] is_array_def Let_def)

lemma parse_scalar_not_array:
  "\<not> is_array v \<Longrightarrow> parse_scalar d v = parse_scalar 0 v \<and> (\<exists>x. parse_scalar d v = Inr x)"
  by (auto simp: parse_scalar_eq [of d v] parse_scalar_eq [of 0 v] is_array_def Let_def)

lemma parse_scalar_error: "parse_scalar d v = Inl e \<Longrightarrow> e = RecursionError"
proof (induction d arbitrary: v rule: less_induct)
  case (less d)
  let ?items = "split_array (interior (strip v))"
  from less.prems parse_scalar_not_array [of v d] have arr: "is_array v" by auto
  with less.prems have "collect (map (scalar_call d) ?items) = Inl e"
    by (simp add: parse_scalar_array split: sum.splits)
  then have "Inl e \<in> set (map (scalar_call d) ?items)"
    by (rule collect_Inl)
  then have "Inl e \<in> scalar_call d ` set ?items"
    by (simp only: set_map)
  then obtain s where "Inl e = scalar_call d s"
    by (rule imageE)
  then show ?case
    using less.IH [of "d - 1" s] by (cases "d = 0") (auto simp: scalar_call_def)
qed

lemma scalar_call_error: "scalar_call d v = Inl e \<Longrightarrow> e = RecursionError"
  by (auto simp: scalar_call_def split: if_splits dest: parse_scalar_error)

lemma parse_scalar_depth_mono:
  "parse_scalar d v = Inr x \<Longrightarrow> d \<le> d' \<Longrightarrow> parse_scalar d' v = Inr x"
proof (induction d arbitrary: v x d' rule: less_induct)
  case (less d)
  let ?items = "split_array (interior (strip v))"
  show ?case
  proof (cases "is_array v")
    case True
    with less.prems(1) obtain xs where c: "collect (map (scalar_call d) ?items) = Inr xs"
      by (auto simp: parse_scalar_array split: sum.splits)
    then have xs: "map (scalar_call d) ?items = map Inr xs"
      by (rule collect_InrD)
    have "scalar_call d' s = scalar_call d s" if "s \<in> set ?items" for s
    proof -
      from that have "scalar_call d s \<in> set (map (scalar_call d) ?items)" by simp
      with xs obtain y where y: "scalar_call d s = Inr y" by auto
      then have d: "d \<noteq> 0" by (auto simp: scalar_call_def split: if_splits)
      with y have "parse_scalar (d - 1) s = Inr y" by (simp add: scalar_call_def)
      from less.IH [OF _ this, of "d' - 1"] d less.prems(2)
      have "parse_scalar (d' - 1) s = Inr y" by simp
      with y d less.prems(2) show ?thesis by (simp add: scalar_call_def)
    qed
    then have meq: "map (scalar_call d') ?items = map (scalar_call d) ?items"
      by simp
    have "parse_scalar d' v = parse_scalar d v"
      unfolding parse_scalar_array [OF True] meq ..
    with less.prems(1) show ?thesis by simp
  next
    case False
    with less.prems(1) parse_scalar_not_array [of v d] parse_scalar_not_array [of v d']
    show ?thesis by simp
  qed
qed

lemma scalar_call_depth_mono:
  "scalar_call d v = Inr x \<Longrightarrow> d \<le> d' \<Longrightarrow> scalar_call d' v = Inr x"
  using parse_scalar_depth_mono [of "d - 1" v x "d' - 1"]
  by (auto simp: scalar_call_def split: if_splits)

lemma parse_scalar_enough: "length v \<le> d \<Longrightarrow> \<exists>x. parse_scalar d v = Inr x"
proof (induction d arbitrary: v rule: less_induct)
  case (less d)
  let ?items = "split_array (interior (strip v))"
  show ?case
  proof (cases "is_array v")
    case False
    with parse_scalar_not_array [of v d] show ?thesis by blast
  next
    case True
    then have ne: "strip v \<noteq> []" by (simp add: is_array_def Let_def)
    have "\<exists>x. scalar_call d s = Inr x" if "s \<in> set ?items" for s
    proof -
      from that have "length s \<le> length (interior (strip v))" by (rule split_array_length)
      also from ne have "\<dots> < length (strip v)" by (rule interior_length)
      also have "\<dots> \<le> length v" by (rule strip_length)
      finally have "length s < d" using less.prems by simp
      then have "d \<noteq> 0" "length s \<le> d - 1" by simp_all
      with less.IH [of "d - 1" s] show ?thesis by (simp add: scalar_call_def)
    qed
    then have "\<exists>xs. collect (map (scalar_call d) ?items) = Inr xs"
      by (intro collect_all_Inr) auto
    then obtain xs where "collect (map (scalar_call d) ?items) = Inr xs" ..
    with True show ?thesis
      by (simp add: parse_scalar_array)
  qed
qed

lemma scalar_call_enough: "length v < d \<Longrightarrow> \<exists>x. scalar_call d v = Inr x"
  using parse_scalar_enough [of v "d - 1"] by (simp add: scalar_call_def)

subsection \<open>The only exception of the parser\<close>

text \<open>
  The parser raises nothing but \<^verbatim>\<open>RecursionError\<close>, and a larger bound on the steps gives
  the same result.
\<close>

lemma call_Inl: "call d f = Some (Inl e) \<Longrightarrow> e = RecursionError \<or> f (d - 1) = Some (Inl e)"
  by (auto simp: call_def split: if_splits)

lemma parse_error_kind:
  "(\<forall>d i p acc e. parse_block n d lines i p acc = Some (Inl e) \<longrightarrow> e = RecursionError) \<and>
   (\<forall>d i p acc e. parse_list n d lines i p acc = Some (Inl e) \<longrightarrow> e = RecursionError) \<and>
   (\<forall>d i p acc e. parse_item n d lines i p acc = Some (Inl e) \<longrightarrow> e = RecursionError)"
proof (induction n)
  case 0
  show ?case by simp
next
  case (Suc n)
  then have B: "\<And>d i p acc e. parse_block n d lines i p acc = Some (Inl e) \<Longrightarrow> e = RecursionError"
    and L: "\<And>d i p acc e. parse_list n d lines i p acc = Some (Inl e) \<Longrightarrow> e = RecursionError"
    and I: "\<And>d i p acc e. parse_item n d lines i p acc = Some (Inl e) \<Longrightarrow> e = RecursionError"
    by blast+
  have "e = RecursionError" if "parse_block (Suc n) d lines i p acc = Some (Inl e)" for d i p acc e
    using that
    by (cases "block_action lines i p")
      (auto simp: parse_block_Suc and_then_Inl dest: B L scalar_call_error call_Inl)
  moreover have "e = RecursionError" if "parse_list (Suc n) d lines i p acc = Some (Inl e)" for d i p acc e
    using that
    by (cases "list_action lines i p")
      (auto simp: parse_list_Suc and_then_Inl dest: L I scalar_call_error call_Inl)
  moreover have "e = RecursionError" if "parse_item (Suc n) d lines i p acc = Some (Inl e)" for d i p acc e
    using that
    by (cases "item_action lines i p")
      (auto simp: parse_item_Suc and_then_Inl dest: L I scalar_call_error call_Inl)
  ultimately show ?case by blast
qed

lemma and_then_mono:
  assumes "and_then r f = Some y"
    and "\<And>x. r = Some x \<Longrightarrow> r' = Some x"
    and "\<And>x. f x = Some y \<Longrightarrow> f' x = Some y"
  shows "and_then r' f' = Some y"
  using assms by (auto simp: and_then_def split: option.splits sum.splits)

lemma call_mono:
  assumes "call d f = Some y" and "\<And>d'. f d' = Some y \<Longrightarrow> f' d' = Some y"
  shows "call d f' = Some y"
  using assms by (auto simp: call_def split: if_splits)

lemma parse_fuel_Suc:
  "(\<forall>d i p acc r. parse_block n d lines i p acc = Some r \<longrightarrow>
      parse_block (Suc n) d lines i p acc = Some r) \<and>
   (\<forall>d i p acc r. parse_list n d lines i p acc = Some r \<longrightarrow>
      parse_list (Suc n) d lines i p acc = Some r) \<and>
   (\<forall>d i p acc r. parse_item n d lines i p acc = Some r \<longrightarrow>
      parse_item (Suc n) d lines i p acc = Some r)"
proof (induction n)
  case 0
  show ?case by simp
next
  case (Suc n)
  then have B: "\<And>d i p acc r. parse_block n d lines i p acc = Some r \<Longrightarrow>
      parse_block (Suc n) d lines i p acc = Some r"
    and L: "\<And>d i p acc r. parse_list n d lines i p acc = Some r \<Longrightarrow>
      parse_list (Suc n) d lines i p acc = Some r"
    and I: "\<And>d i p acc r. parse_item n d lines i p acc = Some r \<Longrightarrow>
      parse_item (Suc n) d lines i p acc = Some r"
    by blast+
  have "parse_block (Suc (Suc n)) d lines i p acc = Some r"
    if "parse_block (Suc n) d lines i p acc = Some r" for d i p acc r
    using that
    apply (subst parse_block_Suc)
    apply (subst (asm) parse_block_Suc)
    apply (cases "block_action lines i p")
    apply (auto elim!: and_then_mono call_mono intro: B L)
    done
  moreover have "parse_list (Suc (Suc n)) d lines i p acc = Some r"
    if "parse_list (Suc n) d lines i p acc = Some r" for d i p acc r
    using that
    apply (subst parse_list_Suc)
    apply (subst (asm) parse_list_Suc)
    apply (cases "list_action lines i p")
    apply (auto elim!: and_then_mono intro: L I)
    done
  moreover have "parse_item (Suc (Suc n)) d lines i p acc = Some r"
    if "parse_item (Suc n) d lines i p acc = Some r" for d i p acc r
    using that
    apply (subst parse_item_Suc)
    apply (subst (asm) parse_item_Suc)
    apply (cases "item_action lines i p")
    apply (auto elim!: and_then_mono call_mono intro: L I)
    done
  ultimately show ?case by blast
qed

lemma parse_block_fuel_mono:
  "parse_block n d lines i p acc = Some r \<Longrightarrow> parse_block (n + k) d lines i p acc = Some r"
  by (induction k) (auto dest: parse_fuel_Suc [THEN conjunct1, rule_format])


subsection \<open>A larger recursion limit\<close>

text \<open>
  A value returned under one recursion limit is returned under every larger one.
\<close>

lemma and_then_Inr_mono:
  assumes "and_then r f = Some (Inr y)"
    and "\<And>x. r = Some (Inr x) \<Longrightarrow> r' = Some (Inr x)"
    and "\<And>x. f x = Some (Inr y) \<Longrightarrow> f' x = Some (Inr y)"
  shows "and_then r' f' = Some (Inr y)"
  using assms by (auto simp: and_then_Inr)

lemma call_depth_mono:
  assumes "call d f = Some (Inr y)" and "d \<le> d'"
    and "\<And>a b. f a = Some (Inr y) \<Longrightarrow> a \<le> b \<Longrightarrow> f b = Some (Inr y)"
  shows "call d' f = Some (Inr y)"
  using assms(1,2) assms(3) [of "d - 1" "d' - 1"]
  by (auto simp: call_def split: if_splits)

lemma parse_depth_mono:
  "(\<forall>d d' i p acc r. parse_block n d lines i p acc = Some (Inr r) \<longrightarrow> d \<le> d' \<longrightarrow>
      parse_block n d' lines i p acc = Some (Inr r)) \<and>
   (\<forall>d d' i p acc r. parse_list n d lines i p acc = Some (Inr r) \<longrightarrow> d \<le> d' \<longrightarrow>
      parse_list n d' lines i p acc = Some (Inr r)) \<and>
   (\<forall>d d' i p acc r. parse_item n d lines i p acc = Some (Inr r) \<longrightarrow> d \<le> d' \<longrightarrow>
      parse_item n d' lines i p acc = Some (Inr r))"
proof (induction n)
  case 0
  show ?case by simp
next
  case (Suc n)
  then have B: "\<And>d d' i p acc r. parse_block n d lines i p acc = Some (Inr r) \<Longrightarrow> d \<le> d' \<Longrightarrow>
      parse_block n d' lines i p acc = Some (Inr r)"
    and L: "\<And>d d' i p acc r. parse_list n d lines i p acc = Some (Inr r) \<Longrightarrow> d \<le> d' \<Longrightarrow>
      parse_list n d' lines i p acc = Some (Inr r)"
    and I: "\<And>d d' i p acc r. parse_item n d lines i p acc = Some (Inr r) \<Longrightarrow> d \<le> d' \<Longrightarrow>
      parse_item n d' lines i p acc = Some (Inr r)"
    by blast+
  have S: "scalar_call d' val = Inr x"
    if "scalar_call d val = Inr x" "d \<le> d'" for d d' val x
    using that by (rule scalar_call_depth_mono)
  have "parse_block (Suc n) d' lines i p acc = Some (Inr r)"
    if "parse_block (Suc n) d lines i p acc = Some (Inr r)" "d \<le> d'" for d d' i p acc r
    using that
    apply (subst parse_block_Suc)
    apply (subst (asm) parse_block_Suc)
    apply (cases "block_action lines i p")
    apply (auto elim!: and_then_Inr_mono call_depth_mono intro: B L S)
    done
  moreover have "parse_list (Suc n) d' lines i p acc = Some (Inr r)"
    if "parse_list (Suc n) d lines i p acc = Some (Inr r)" "d \<le> d'" for d d' i p acc r
    using that
    apply (subst parse_list_Suc)
    apply (subst (asm) parse_list_Suc)
    apply (cases "list_action lines i p")
    apply (auto elim!: and_then_Inr_mono intro: L I S)
    done
  moreover have "parse_item (Suc n) d' lines i p acc = Some (Inr r)"
    if "parse_item (Suc n) d lines i p acc = Some (Inr r)" "d \<le> d'" for d d' i p acc r
    using that
    apply (subst parse_item_Suc)
    apply (subst (asm) parse_item_Suc)
    apply (cases "item_action lines i p")
    apply (auto elim!: and_then_Inr_mono call_depth_mono intro: L I S)
    done
  ultimately show ?case by blast
qed

lemma parse_block_depth_mono:
  "parse_block n d lines i p acc = Some (Inr r) \<Longrightarrow> d \<le> d' \<Longrightarrow>
   parse_block n d' lines i p acc = Some (Inr r)"
  using parse_depth_mono by blast

lemma match_kv_length: "match_kv s = Some (g1, g2) \<Longrightarrow> length g2 \<le> length s"
proof -
  assume "match_kv s = Some (g1, g2)"
  then have g2: "g2 = takeWhile (\<lambda>c. c \<noteq> CHR 0x0A)
      (dropWhile isspace (tl (dropWhile (\<lambda>c. c \<noteq> CHR '':'') s)))"
    by (auto simp: match_kv_def Let_def split: if_splits)
  have "length g2 \<le> length (dropWhile isspace (tl (dropWhile (\<lambda>c. c \<noteq> CHR '':'') s)))"
    unfolding g2 by (rule length_takeWhile_le)
  also have "\<dots> \<le> length (tl (dropWhile (\<lambda>c. c \<noteq> CHR '':'') s))"
    by (rule length_dropWhile_le)
  also have "\<dots> \<le> length (dropWhile (\<lambda>c. c \<noteq> CHR '':'') s)"
    by simp
  also have "\<dots> \<le> length s"
    by (rule length_dropWhile_le)
  finally show ?thesis .
qed

lemma match_kv_strip_length: "match_kv (strip l) = Some (g1, g2) \<Longrightarrow> length (strip g2) \<le> length l"
  using match_kv_length [of "strip l" g1 g2] strip_length [of g2] strip_length [of l] by simp

lemma block_action_scalar_length:
  "block_action lines i p = BScalar k val \<Longrightarrow> i < length lines \<and> length val \<le> length (lines ! i)"
  by (auto simp: block_action_def Let_def split: if_splits option.splits
      dest: match_kv_strip_length)

lemma item_action_scalar_length:
  "item_action lines i p = IScalar k val \<Longrightarrow> i < length lines \<and> length val \<le> length (lines ! i)"
  by (auto simp: item_action_def Let_def split: if_splits option.splits
      dest: match_kv_strip_length)

lemma content_length: "length (strip (drop 2 (strip l))) \<le> length l"
  using strip_length [of "drop 2 (strip l)"] strip_length [of l] by simp

lemma list_action_scalar_length:
  "list_action lines i p = LItemScalar val \<Longrightarrow> i < length lines \<and> length val \<le> length (lines ! i)"
  by (auto simp: list_action_def Let_def content_length split: if_splits option.splits)

lemma list_action_map_length:
  "list_action lines i p = LItemMap k val ind \<Longrightarrow> i < length lines \<and> length val \<le> length (lines ! i)"
proof -
  assume a: "list_action lines i p = LItemMap k val ind"
  then have i: "i < length lines" using list_action_in_range [of lines i p] by simp
  from a obtain g1 g2 where m: "match_kv (strip (drop 2 (strip (lines ! i)))) = Some (g1, g2)"
    and v: "val = strip g2"
    by (auto simp: list_action_def Let_def split: if_splits option.splits)
  have "length val \<le> length g2" unfolding v by (rule strip_length)
  also from m have "\<dots> \<le> length (strip (drop 2 (strip (lines ! i))))" by (rule match_kv_length)
  also have "\<dots> \<le> length (lines ! i)" by (rule content_length)
  finally show ?thesis using i by simp
qed

subsection \<open>A recursion limit that suffices\<close>

text \<open>
  Every nested call starts at a later line or resolves a shorter text, so a limit of the
  number of remaining lines plus the length of the longest line plus two is never
  reached.
\<close>

lemma and_then_no_error:
  "r \<noteq> Some (Inl e) \<Longrightarrow> (\<And>x. r = Some (Inr x) \<Longrightarrow> f x \<noteq> Some (Inl e)) \<Longrightarrow>
   and_then r f \<noteq> Some (Inl e)"
  by (auto simp: and_then_Inl)

lemma call_no_error: "0 < d \<Longrightarrow> f (d - 1) \<noteq> Some (Inl e) \<Longrightarrow> call d f \<noteq> Some (Inl e)"
  by (simp add: call_def)

lemma scalar_no_error: "length val < d \<Longrightarrow> Some (scalar_call d val) \<noteq> Some (Inl e)"
  using scalar_call_enough [of val d] by auto

lemma scalar_then_no_error:
  "length val < d \<Longrightarrow> (\<And>v. f v \<noteq> Some (Inl e)) \<Longrightarrow>
   and_then (Some (scalar_call d val)) f \<noteq> Some (Inl e)"
  by (rule and_then_no_error) (auto dest: scalar_no_error)

lemma parse_depth_enough:
  assumes M: "\<forall>l \<in> set lines. length l \<le> M"
  shows
  "(\<forall>d i p acc e. (length lines - i) + M + 2 \<le> d \<longrightarrow>
      parse_block n d lines i p acc \<noteq> Some (Inl e)) \<and>
   (\<forall>d i p acc e. (length lines - i) + M + 1 \<le> d \<longrightarrow>
      parse_list n d lines i p acc \<noteq> Some (Inl e)) \<and>
   (\<forall>d j p obj e. (length lines - j) + M + 2 \<le> d \<longrightarrow>
      parse_item n d lines j p obj \<noteq> Some (Inl e))"
proof (induction n)
  case 0
  show ?case by simp
next
  case (Suc n)
  then have B: "\<And>d i p acc e. (length lines - i) + M + 2 \<le> d \<Longrightarrow>
      parse_block n d lines i p acc \<noteq> Some (Inl e)"
    and L: "\<And>d i p acc e. (length lines - i) + M + 1 \<le> d \<Longrightarrow>
      parse_list n d lines i p acc \<noteq> Some (Inl e)"
    and I: "\<And>d j p obj e. (length lines - j) + M + 2 \<le> d \<Longrightarrow>
      parse_item n d lines j p obj \<noteq> Some (Inl e)"
    by blast+
  have len: "length (lines ! i) \<le> M" if "i < length lines" for i
    using M that by simp
  have blk: "parse_block (Suc n) d lines i p acc \<noteq> Some (Inl e)"
    if dep: "(length lines - i) + M + 2 \<le> d" for d i p acc e
  proof (cases "block_action lines i p")
    case BEnd
    then show ?thesis by (simp add: parse_block_Suc)
  next
    case BSkip
    from dep have "(length lines - (i + 1)) + M + 2 \<le> d" by arith
    from B [OF this] BSkip show ?thesis by (simp add: parse_block_Suc)
  next
    case (BList ind)
    from dep have "0 < d" "(length lines - i) + M + 1 \<le> d - 1" by arith+
    with L [of i "d - 1"] BList show ?thesis
      by (simp add: parse_block_Suc call_no_error)
  next
    case (BScalar k val)
    from block_action_scalar_length [OF BScalar]
    have "i < length lines" "length val \<le> length (lines ! i)" by simp_all
    with len [of i] dep have vl: "length val < d" by arith
    from dep have di: "(length lines - (i + 1)) + M + 2 \<le> d" by arith
    have "and_then (Some (scalar_call d val))
        (\<lambda>v. parse_block n d lines (i + 1) p (AList.update k v acc)) \<noteq> Some (Inl e)"
      by (rule scalar_then_no_error [OF vl]) (rule B [OF di])
    with BScalar show ?thesis by (simp add: parse_block_Suc)
  next
    case (BEmpty k)
    from dep have "(length lines - (i + 1)) + M + 2 \<le> d" by arith
    from B [OF this] BEmpty show ?thesis by (simp add: parse_block_Suc)
  next
    case (BNestList k ni ind)
    from block_action_nest_list [OF BNestList] dep
    have "0 < d" "(length lines - ni) + M + 1 \<le> d - 1" by arith+
    with L [of ni "d - 1"] have 1: "call d (\<lambda>d'. parse_list n d' lines ni ind []) \<noteq> Some (Inl e)"
      by (simp add: call_no_error)
    have "and_then (call d (\<lambda>d'. parse_list n d' lines ni ind []))
        (\<lambda>(v, i'). parse_block n d lines i' p (AList.update k v acc)) \<noteq> Some (Inl e)"
    proof (rule and_then_no_error [OF 1])
      fix x assume x: "call d (\<lambda>d'. parse_list n d' lines ni ind []) = Some (Inr x)"
      obtain v i' where xv: "x = (v, i')" by (cases x)
      with x have "ni \<le> i'"
        by (auto simp: call_def split: if_splits dest: parse_list_index)
      with block_action_nest_list [OF BNestList] dep
      have "(length lines - i') + M + 2 \<le> d" by arith
      from B [OF this] xv
      show "(case x of (v, i') \<Rightarrow> parse_block n d lines i' p (AList.update k v acc)) \<noteq> Some (Inl e)"
        by simp
    qed
    with BNestList show ?thesis by (simp add: parse_block_Suc)
  next
    case (BNestBlock k ni ind)
    from BNestBlock have il: "i < length lines"
      using block_action_in_range [of lines i p] by simp
    from block_action_nest_block [OF BNestBlock] il dep
    have "0 < d" "(length lines - ni) + M + 2 \<le> d - 1" by arith+
    with B [of ni "d - 1"] have 1: "call d (\<lambda>d'. parse_block n d' lines ni ind []) \<noteq> Some (Inl e)"
      by (simp add: call_no_error)
    have "and_then (call d (\<lambda>d'. parse_block n d' lines ni ind []))
        (\<lambda>(v, i'). parse_block n d lines i' p (AList.update k v acc)) \<noteq> Some (Inl e)"
    proof (rule and_then_no_error [OF 1])
      fix x assume x: "call d (\<lambda>d'. parse_block n d' lines ni ind []) = Some (Inr x)"
      obtain v i' where xv: "x = (v, i')" by (cases x)
      with x have "ni \<le> i'"
        by (auto simp: call_def split: if_splits dest: parse_block_index)
      with block_action_nest_block [OF BNestBlock] dep
      have "(length lines - i') + M + 2 \<le> d" by arith
      from B [OF this] xv
      show "(case x of (v, i') \<Rightarrow> parse_block n d lines i' p (AList.update k v acc)) \<noteq> Some (Inl e)"
        by simp
    qed
    with BNestBlock show ?thesis by (simp add: parse_block_Suc)
  qed
  have lst: "parse_list (Suc n) d lines i p acc \<noteq> Some (Inl e)"
    if dep: "(length lines - i) + M + 1 \<le> d" for d i p acc e
  proof (cases "list_action lines i p")
    case LEnd
    then show ?thesis by (simp add: parse_list_Suc)
  next
    case LSkip
    from dep have "(length lines - (i + 1)) + M + 1 \<le> d" by arith
    from L [OF this] LSkip show ?thesis by (simp add: parse_list_Suc)
  next
    case (LItemMap k val ind)
    from list_action_map_length [OF LItemMap]
    have il: "i < length lines" and "length val \<le> length (lines ! i)" by simp_all
    with len [of i] dep have vl: "length val < d" by arith
    from il dep have di: "(length lines - (i + 1)) + M + 2 \<le> d" by arith
    have "and_then (parse_item n d lines (i + 1) ind [(k, v)])
        (\<lambda>(obj, j). parse_list n d lines j p (acc @ [Mapping obj])) \<noteq> Some (Inl e)" for v
    proof (rule and_then_no_error [OF I [OF di]])
      fix x assume x: "parse_item n d lines (i + 1) ind [(k, v)] = Some (Inr x)"
      obtain obj j where xv: "x = (obj, j)" by (cases x)
      with x have "i + 1 \<le> j" by (auto dest: parse_item_index)
      with dep have "(length lines - j) + M + 1 \<le> d" by arith
      from L [OF this] xv
      show "(case x of (obj, j) \<Rightarrow> parse_list n d lines j p (acc @ [Mapping obj])) \<noteq> Some (Inl e)"
        by simp
    qed
    then have "and_then (Some (scalar_call d val))
        (\<lambda>v. and_then (parse_item n d lines (i + 1) ind [(k, v)])
           (\<lambda>(obj, j). parse_list n d lines j p (acc @ [Mapping obj]))) \<noteq> Some (Inl e)"
      by (intro scalar_then_no_error [OF vl])
    with LItemMap show ?thesis by (simp add: parse_list_Suc)
  next
    case (LItemScalar val)
    from list_action_scalar_length [OF LItemScalar]
    have "i < length lines" "length val \<le> length (lines ! i)" by simp_all
    with len [of i] dep have vl: "length val < d" by arith
    from dep have di: "(length lines - (i + 1)) + M + 1 \<le> d" by arith
    have "and_then (Some (scalar_call d val))
        (\<lambda>v. parse_list n d lines (i + 1) p (acc @ [v])) \<noteq> Some (Inl e)"
      by (rule scalar_then_no_error [OF vl]) (rule L [OF di])
    with LItemScalar show ?thesis by (simp add: parse_list_Suc)
  qed
  have itm: "parse_item (Suc n) d lines j p obj \<noteq> Some (Inl e)"
    if dep: "(length lines - j) + M + 2 \<le> d" for d j p obj e
  proof (cases "item_action lines j p")
    case IEnd
    then show ?thesis by (simp add: parse_item_Suc)
  next
    case ISkip
    from dep have "(length lines - (j + 1)) + M + 2 \<le> d" by arith
    from I [OF this] ISkip show ?thesis by (simp add: parse_item_Suc)
  next
    case (IScalar k val)
    from item_action_scalar_length [OF IScalar]
    have "j < length lines" "length val \<le> length (lines ! j)" by simp_all
    with len [of j] dep have vl: "length val < d" by arith
    from dep have di: "(length lines - (j + 1)) + M + 2 \<le> d" by arith
    have "and_then (Some (scalar_call d val))
        (\<lambda>v. parse_item n d lines (j + 1) p (AList.update k v obj)) \<noteq> Some (Inl e)"
      by (rule scalar_then_no_error [OF vl]) (rule I [OF di])
    with IScalar show ?thesis by (simp add: parse_item_Suc)
  next
    case (IEmpty k)
    from dep have "(length lines - (j + 1)) + M + 2 \<le> d" by arith
    from I [OF this] IEmpty show ?thesis by (simp add: parse_item_Suc)
  next
    case (INestList k nj li)
    from item_action_nest_list [OF INestList] dep
    have "0 < d" "(length lines - nj) + M + 1 \<le> d - 1" by arith+
    with L [of nj "d - 1"] have 1: "call d (\<lambda>d'. parse_list n d' lines nj li []) \<noteq> Some (Inl e)"
      by (simp add: call_no_error)
    have "and_then (call d (\<lambda>d'. parse_list n d' lines nj li []))
        (\<lambda>(v, j'). parse_item n d lines j' p (AList.update k v obj)) \<noteq> Some (Inl e)"
    proof (rule and_then_no_error [OF 1])
      fix x assume x: "call d (\<lambda>d'. parse_list n d' lines nj li []) = Some (Inr x)"
      obtain v j' where xv: "x = (v, j')" by (cases x)
      with x have "nj \<le> j'"
        by (auto simp: call_def split: if_splits dest: parse_list_index)
      with item_action_nest_list [OF INestList] dep
      have "(length lines - j') + M + 2 \<le> d" by arith
      from I [OF this] xv
      show "(case x of (v, j') \<Rightarrow> parse_item n d lines j' p (AList.update k v obj)) \<noteq> Some (Inl e)"
        by simp
    qed
    with INestList show ?thesis by (simp add: parse_item_Suc)
  qed
  from blk lst itm show ?case by blast
qed

lemma split_lines_acc_length:
  "l \<in> set (split_lines_acc cur s) \<Longrightarrow> length l \<le> length cur + length s"
  by (induction s arbitrary: cur) (fastforce split: if_splits)+

lemma split_lines_length: "l \<in> set (split_lines s) \<Longrightarrow> length l \<le> length s"
  using split_lines_acc_length [of l "[]" s] by (simp add: split_lines_def)

subsection \<open>Sequence or Mapping\<close>

lemma parse_list_sequence:
  "parse_list n d lines i li acc = Some (Inr (v, i')) \<Longrightarrow> \<exists>xs. v = Sequence xs"
proof (induction n arbitrary: i acc)
  case 0
  then show ?case by simp
next
  case (Suc n)
  then show ?case
    by (cases "list_action lines i li")
      (auto simp: parse_list_Suc and_then_Inr)
qed

lemma call_list_sequence:
  "call d (\<lambda>d'. parse_list n d' lines i li acc) = Some (Inr (v, i')) \<Longrightarrow> \<exists>xs. v = Sequence xs"
  by (auto simp: call_def split: if_splits dest: parse_list_sequence)

lemma block_action_list_iff:
  "block_action lines i p = BList ind \<longleftrightarrow>
     i < length lines \<and> dash_line p (lines ! i) \<and> ind = get_indent (lines ! i)"
  by (auto simp: block_action_def dash_line_def Let_def split: option.splits)

lemma block_heads_in_range: "j \<in> set (block_heads n d lines i p) \<Longrightarrow> j < length lines"
proof (induction n arbitrary: i)
  case 0
  then show ?case by simp
next
  case (Suc n)
  then show ?case
    by (cases "block_action lines i p")
      (auto split: if_splits sum.splits option.splits)
qed

lemma parse_block_kind:
  "parse_block n d lines i p acc = Some (Inr (v, i')) \<Longrightarrow>
   (if \<exists>h \<in> set (block_heads n d lines i p). dash_line p (lines ! h)
    then \<exists>xs. v = Sequence xs else \<exists>m. v = Mapping m)"
proof (induction n arbitrary: i acc)
  case 0
  then show ?case by simp
next
  case (Suc n)
  show ?case
  proof (cases "block_action lines i p")
    case BEnd
    then have "\<not> (i < length lines \<and> dash_line p (lines ! i))"
      using block_action_list_iff [of lines i p] by auto
    with BEnd Suc.prems show ?thesis
      by (auto simp: parse_block_Suc)
  next
    case BSkip
    then have nd: "\<not> dash_line p (lines ! i)" "i < length lines"
      using block_action_list_iff [of lines i p] block_action_in_range [of lines i p] by auto
    from BSkip Suc.prems have "parse_block n d lines (i + 1) p acc = Some (Inr (v, i'))"
      by (simp add: parse_block_Suc)
    from Suc.IH [OF this] BSkip nd show ?thesis by simp
  next
    case (BList ind)
    then have "i < length lines" "dash_line p (lines ! i)"
      by (simp_all add: block_action_list_iff)
    moreover from BList Suc.prems have "\<exists>xs. v = Sequence xs"
      by (auto simp: parse_block_Suc dest: call_list_sequence)
    ultimately show ?thesis by simp
  next
    case (BScalar k val)
    then have nd: "\<not> dash_line p (lines ! i)" "i < length lines"
      using block_action_list_iff [of lines i p] block_action_in_range [of lines i p] by auto
    from BScalar Suc.prems obtain x where x: "scalar_call d val = Inr x"
      and c: "parse_block n d lines (i + 1) p (AList.update k x acc) = Some (Inr (v, i'))"
      by (auto simp: parse_block_Suc and_then_Inr)
    from Suc.IH [OF c] BScalar nd x show ?thesis by simp
  next
    case (BEmpty k)
    then have nd: "\<not> dash_line p (lines ! i)" "i < length lines"
      using block_action_list_iff [of lines i p] block_action_in_range [of lines i p] by auto
    from BEmpty Suc.prems
    have "parse_block n d lines (i + 1) p (AList.update k (String []) acc) = Some (Inr (v, i'))"
      by (simp add: parse_block_Suc)
    from Suc.IH [OF this] BEmpty nd show ?thesis by simp
  next
    case (BNestList k ni ind)
    then have nd: "\<not> dash_line p (lines ! i)" "i < length lines"
      using block_action_list_iff [of lines i p] block_action_in_range [of lines i p] by auto
    from BNestList Suc.prems obtain x i2
      where x: "call d (\<lambda>d'. parse_list n d' lines ni ind []) = Some (Inr (x, i2))"
      and c: "parse_block n d lines i2 p (AList.update k x acc) = Some (Inr (v, i'))"
      by (auto simp: parse_block_Suc and_then_Inr)
    from Suc.IH [OF c] BNestList nd x show ?thesis by simp
  next
    case (BNestBlock k ni ind)
    then have nd: "\<not> dash_line p (lines ! i)" "i < length lines"
      using block_action_list_iff [of lines i p] block_action_in_range [of lines i p] by auto
    from BNestBlock Suc.prems obtain x i2
      where x: "call d (\<lambda>d'. parse_block n d' lines ni ind []) = Some (Inr (x, i2))"
      and c: "parse_block n d lines i2 p (AList.update k x acc) = Some (Inr (v, i'))"
      by (auto simp: parse_block_Suc and_then_Inr)
    from Suc.IH [OF c] BNestBlock nd x show ?thesis by simp
  qed
qed



subsection \<open>The assignments of one block\<close>







declare block_heads.simps [simp del]


lemma parse_block_end:
  "parse_block (Suc n) d lines i p acc = Some (Inr (Mapping m, i')) \<Longrightarrow>
   block_action lines i p = BEnd \<Longrightarrow> m = acc"
  by (simp add: parse_block_Suc)



subsection \<open>The whole parser\<close>

lemma parse_yaml_depth_mono:
  assumes "parse_yaml limit doc = Some (Inr v)" and "limit \<le> limit'"
  shows "parse_yaml limit' doc = Some (Inr v)"
proof -
  let ?lines = "split_lines doc"
  let ?f = "\<lambda>d. parse_block (2 * length ?lines + 2) d ?lines 0 (- 1) []"
  from assms(1) obtain x where x: "call limit ?f = Some (Inr x)" and v: "fst x = v"
    by (auto simp: parse_yaml_def Let_def and_then_Inr)
  from x assms(2) have "call limit' ?f = Some (Inr x)"
    by (rule call_depth_mono) (rule parse_block_depth_mono)
  with v show ?thesis
    by (cases x) (simp add: parse_yaml_def Let_def)
qed

lemma parse_yaml_at_least:
  "parse_yaml limit doc = Some (Inr v) \<Longrightarrow> parse_yaml (limit + k) doc = Some (Inr v)"
  using parse_yaml_depth_mono [of limit doc v "limit + k"] by simp

lemma parse_yaml_InrD:
  assumes "parse_yaml limit doc = Some (Inr v)"
  shows "0 < limit \<and> (\<exists>i'. parse_block (2 * length (split_lines doc) + 2) (limit - 1)
            (split_lines doc) 0 (- 1) [] = Some (Inr (v, i')))"
  using assms
  by (auto simp: parse_yaml_def Let_def and_then_Inr call_def split: if_splits)

lemma parse_yaml_container:
  assumes "parse_yaml limit doc = Some (Inr v)"
  shows "(\<exists>xs. v = Sequence xs) \<or> (\<exists>m. v = Mapping m)"
proof -
  from assms obtain i' where "parse_block (2 * length (split_lines doc) + 2) (limit - 1)
            (split_lines doc) 0 (- 1) [] = Some (Inr (v, i'))"
    by (auto dest: parse_yaml_InrD)
  from parse_block_kind [OF this] show ?thesis
    by (auto split: if_splits)
qed

lemma result_cases:
  fixes r :: "(py_error + 'a) option"
  assumes "r \<noteq> None" and "\<And>e. r = Some (Inl e) \<Longrightarrow> e = RecursionError"
  shows "(\<exists>x. r = Some (Inr x)) \<or> r = Some (Inl RecursionError)"
proof -
  from assms(1) obtain a where a: "r = Some a" by auto
  show ?thesis
  proof (cases a)
    case (Inl e)
    with a assms(2) [of e] show ?thesis by simp
  next
    case (Inr x)
    with a show ?thesis by simp
  qed
qed

lemma parse_block_total:
  assumes "2 * (length lines - i) + 2 \<le> n"
  shows "(\<exists>v i'. parse_block n d lines i p acc = Some (Inr (v, i')) \<and> i \<le> i') \<or>
      parse_block n d lines i p acc = Some (Inl RecursionError)"
  using result_cases [of "parse_block n d lines i p acc"] parse_returns [of lines n] assms
    parse_error_kind [of n lines]
  by (fastforce dest: parse_block_index)

lemma parse_list_total:
  assumes "2 * (length lines - i) + 1 \<le> n"
  shows "(\<exists>v i'. parse_list n d lines i p vs = Some (Inr (v, i')) \<and> i \<le> i') \<or>
      parse_list n d lines i p vs = Some (Inl RecursionError)"
  using result_cases [of "parse_list n d lines i p vs"] parse_returns [of lines n] assms
    parse_error_kind [of n lines]
  by (fastforce dest: parse_list_index)

lemma parse_item_total:
  assumes "2 * (length lines - i) + 1 \<le> n"
  shows "(\<exists>obj' j'. parse_item n d lines i p obj = Some (Inr (obj', j')) \<and> i \<le> j') \<or>
      parse_item n d lines i p obj = Some (Inl RecursionError)"
  using result_cases [of "parse_item n d lines i p obj"] parse_returns [of lines n] assms
    parse_error_kind [of n lines]
  by (fastforce dest: parse_item_index)

lemma parse_yaml_total:
  "(\<exists>v. parse_yaml limit doc = Some (Inr v)) \<or>
   parse_yaml limit doc = Some (Inl RecursionError)"
proof (cases "limit = 0")
  case True
  then show ?thesis by (simp add: parse_yaml_def call_def)
next
  case False
  with parse_block_total [of "split_lines doc" 0 "2 * length (split_lines doc) + 2"
      "limit - 1" "- 1" "[]"]
  show ?thesis
    by (auto simp: parse_yaml_def call_def Let_def)
qed

lemma parse_yaml_enough:
  assumes lim: "length (split_lines doc) + length doc + 3 \<le> limit"
  shows "\<exists>v. parse_yaml limit doc = Some (Inr v)"
proof -
  let ?lines = "split_lines doc"
  let ?F = "2 * length ?lines + 2"
  have "\<forall>l \<in> set ?lines. length l \<le> length doc"
    by (simp add: split_lines_length)
  from parse_depth_enough [OF this, of ?F, THEN conjunct1, rule_format, of 0 "limit - 1" "- 1" "[]"]
    lim
  have "parse_block ?F (limit - 1) ?lines 0 (- 1) [] \<noteq> Some (Inl e)" for e
    by simp
  with parse_block_total [of ?lines 0 ?F "limit - 1" "- 1" "[]"] lim show ?thesis
    by (auto simp: parse_yaml_def call_def Let_def)
qed

lemma parse_block_fuel_independent:
  "parse_block (2 * length lines + 2 + k) d lines 0 p acc =
     parse_block (2 * length lines + 2) d lines 0 p acc"
proof -
  from parse_returns [of lines "2 * length lines + 2"]
  obtain r where "parse_block (2 * length lines + 2) d lines 0 p acc = Some r"
    by fastforce
  with parse_block_fuel_mono [OF this, of k] show ?thesis by simp
qed

lemma block_action_empty_key:
  assumes "i < length lines" and "empty_key_line p (lines ! i) k"
    and "child = skip_blank lines (i + 1)" and "child < length lines"
    and "get_indent (lines ! i) < get_indent (lines ! child)"
  shows "block_action lines i p =
     (if startswith (strip (lines ! child)) ''- ''
      then BNestList k child (get_indent (lines ! child))
      else BNestBlock k child (get_indent (lines ! i)))"
  using assms
  by (auto simp: block_action_def empty_key_line_def Let_def split: option.splits)

subsection \<open>The comma split\<close>

lemma split_loop_items:
  "split_loop s (xs @ items) cur q =
     (xs @ fst (split_loop s items cur q), snd (split_loop s items cur q))"
  by (induction s arbitrary: items cur q) simp_all

lemma split_loop_no_split:
  "\<not> splits q s \<Longrightarrow> split_loop s items cur q = (items, cur @ s)"
  by (induction s arbitrary: cur q) (auto split: if_splits)

lemma split_loop_first:
  "\<not> splits q p \<Longrightarrow> in_quote_after q p = None \<Longrightarrow>
     split_loop (p @ CHR '','' # r) items cur q = split_loop r (items @ [cur @ p]) [] None"
  by (induction p arbitrary: cur q) (auto split: if_splits)

subsection \<open>Nested brackets\<close>

lemma strip_id: "s \<noteq> [] \<Longrightarrow> \<not> isspace (hd s) \<Longrightarrow> \<not> isspace (last s) \<Longrightarrow> strip s = s"
proof -
  assume a: "s \<noteq> []" "\<not> isspace (hd s)" "\<not> isspace (last s)"
  then have 1: "dropWhile isspace s = s"
    by (cases s) auto
  from a have "rev s \<noteq> []" "\<not> isspace (hd (rev s))"
    by (simp_all add: hd_rev)
  then have "dropWhile isspace (rev s) = rev s"
    by (cases "rev s") auto
  with 1 show ?thesis by (simp add: strip_def)
qed

lemma brackets_Suc: "brackets (Suc n) = CHR ''['' # brackets n @ '']''"
  by (simp add: brackets_def replicate_append_same)

lemma brackets_strip: "strip (brackets n) = brackets n"
proof (cases n)
  case 0
  then show ?thesis by (simp add: brackets_def strip_def)
next
  case (Suc m)
  show ?thesis unfolding Suc brackets_Suc
    by (rule strip_id) (simp_all add: isspace_def)
qed

lemma brackets_interior: "interior (brackets (Suc n)) = brackets n"
  by (simp add: brackets_Suc interior_def)

lemma brackets_is_array: "is_array (brackets (Suc n))"
  unfolding is_array_def brackets_strip Let_def
  by (simp add: brackets_Suc startswith_def endswith_def)

lemma no_comma_no_split:
  "\<forall>c \<in> set s. c \<noteq> CHR '','' \<Longrightarrow> \<not> splits q s"
  by (induction s arbitrary: q) auto

lemma brackets_split_array: "split_array (brackets (Suc n)) = [brackets (Suc n)]"
proof -
  have "\<not> splits None (brackets (Suc n))"
    by (rule no_comma_no_split) (auto simp: brackets_def)
  then have "split_array (brackets (Suc n)) =
      (if strip (brackets (Suc n)) = [] then [] else [brackets (Suc n)])"
    by (simp add: split_array_def split_loop_no_split)
  moreover have "strip (brackets (Suc n)) \<noteq> []"
    unfolding brackets_strip by (simp add: brackets_def)
  ultimately show ?thesis by simp
qed

lemma parse_scalar_brackets:
  "d + 1 < n \<Longrightarrow> parse_scalar d (brackets n) = Inl RecursionError"
proof (induction d arbitrary: n)
  case 0
  then obtain m where n: "n = Suc (Suc m)" by (cases n; cases "n - 1") auto
  show ?case unfolding n
    by (simp add: parse_scalar_array [OF brackets_is_array] brackets_strip brackets_interior
        brackets_split_array scalar_call_def)
next
  case (Suc d)
  then obtain m where n: "n = Suc (Suc m)" by (cases n; cases "n - 1") auto
  with Suc.prems have "d + 1 < Suc m" by simp
  from Suc.IH [OF this] show ?case unfolding n
    by (simp add: parse_scalar_array [OF brackets_is_array] brackets_strip brackets_interior
        brackets_split_array scalar_call_def)
qed

lemma scalar_call_brackets: "d < n \<Longrightarrow> scalar_call d (brackets n) = Inl RecursionError"
  using parse_scalar_brackets [of "d - 1" n] by (auto simp: scalar_call_def)

lemma split_lines_acc_one:
  "\<forall>c \<in> set s. c \<noteq> CHR 0x0A \<Longrightarrow> split_lines_acc cur s = [cur @ s]"
  by (induction s arbitrary: cur) auto

lemma brackets_line_action:
  assumes "0 < n"
  shows "block_action [''a: '' @ brackets n] 0 (- 1) = BScalar ''a'' (brackets n)"
proof -
  from assms obtain m where n: "n = Suc m" by (cases n) auto
  define l where "l = ''a: '' @ brackets n"
  have s: "strip l = l"
    unfolding l_def by (rule strip_id) (simp_all add: isspace_def n brackets_Suc)
  have m: "match_kv l = Some (''a'', brackets n)"
    unfolding l_def
    by (simp add: match_kv_def isspace_def n brackets_Suc brackets_def takeWhile_eq_all_conv
        takeWhile_append)
  have i: "get_indent l = 0"
    unfolding l_def by (simp add: get_indent_def lstrip_def isspace_def)
  have st: "\<not> startswith l ''#''" "\<not> startswith l ''- ''" "l \<noteq> []"
    unfolding l_def by (simp_all add: startswith_def)
  from assms have ne: "brackets n \<noteq> []" by (simp add: brackets_def)
  have a: "strip ''a'' = ''a''"
    by (simp add: strip_def isspace_def)
  have "block_action [l] 0 (- 1) = BScalar ''a'' (brackets n)"
    by (simp add: block_action_def s m i st a brackets_strip ne Let_def)
  then show ?thesis by (simp only: l_def)
qed

lemma parse_yaml_brackets:
  assumes "0 < n" and "limit \<le> n"
  shows "parse_yaml limit (''a: '' @ brackets n) = Some (Inl RecursionError)"
proof -
  define l where "l = ''a: '' @ brackets n"
  have "split_lines_acc [] l = [[] @ l]"
    by (rule split_lines_acc_one) (auto simp: l_def brackets_def)
  then have lines: "split_lines l = [l]"
    by (simp add: split_lines_def)
  have act: "block_action [l] 0 (- 1) = BScalar ''a'' (brackets n)"
    unfolding l_def by (rule brackets_line_action [OF assms(1)])
  have "parse_block (Suc (Suc (Suc (Suc 0)))) d [l] 0 (- 1) [] = Some (Inl RecursionError)"
    if "d < n" for d
    using that
    by (simp add: parse_block_Suc [of "Suc (Suc (Suc 0))"] act scalar_call_brackets)
  then have "call limit (\<lambda>d. parse_block 4 d [l] 0 (- 1) []) = Some (Inl RecursionError)"
    using assms(2) by (auto simp: call_def eval_nat_numeral)
  then have "parse_yaml limit l = Some (Inl RecursionError)"
    by (simp add: parse_yaml_def lines)
  then show ?thesis by (simp only: l_def)
qed

subsection \<open>The guard of the page generator\<close>

text \<open>
  A missing link, a link that counts as false and a string link without a leading
  \<^verbatim>\<open>/\<close> make the generator return \<^verbatim>\<open>None\<close> with no effect; a link that counts as true
  and is not a string raises; any effect at all needs a string link that begins with
  \<^verbatim>\<open>/\<close>; and with such a link and a template the page is built.
\<close>

lemma generate_page_skips_bad_link:
  "(map_of d ''link'' = None \<longrightarrow>
      generate_page repo_root repr files (Mapping d) template_name = Inr (None, [])) \<and>
   (map_of d ''link'' = Some v \<and> \<not> truthy v \<longrightarrow>
      generate_page repo_root repr files (Mapping d) template_name = Inr (None, [])) \<and>
   (map_of d ''link'' = Some (String l) \<and> \<not> startswith l ''/'' \<longrightarrow>
      generate_page repo_root repr files (Mapping d) template_name = Inr (None, []))"
  by (auto simp: generate_page_def dict_get_def Let_def)

lemma generate_page_non_string_link:
  "map_of d ''link'' = Some v \<Longrightarrow> truthy v \<Longrightarrow> (\<forall>l. v \<noteq> String l) \<Longrightarrow>
   generate_page repo_root repr files (Mapping d) template_name = Inl AttributeError"
  by (cases v) (auto simp: generate_page_def dict_get_def Let_def)

lemma generate_page_effects_need_link:
  assumes "generate_page repo_root repr files item template_name = Inr (res, effs)"
    and "effs \<noteq> []"
  shows "\<exists>d l. item = Mapping d \<and> map_of d ''link'' = Some (String l) \<and> startswith l ''/''"
proof (cases item)
  case (Mapping d)
  show ?thesis
  proof (cases "dict_get d ''link'' (String [])")
    case (String l)
    with assms Mapping have "startswith l ''/''" "l \<noteq> []"
      by (auto simp: generate_page_def Let_def split: if_splits)
    moreover from String this have "map_of d ''link'' = Some (String l)"
      by (auto simp: dict_get_def split: option.splits)
    ultimately show ?thesis using Mapping by simp
  qed (use assms Mapping in \<open>auto simp: generate_page_def Let_def split: if_splits\<close>)
qed (use assms in \<open>auto simp: generate_page_def\<close>)

lemma generate_page_builds_example:
  "generate_page ''/repo'' repr
     (\<lambda>p. if p = ''/repo/_templates/case-study.html''
          then Some ''<title>Case Study | Portfolio</title>'' else None)
     (Mapping [(''title'', String ''X''), (''link'', String ''/x/'')]) ''case-study'' =
   Inr (Some ''/repo/x/index.html'',
        [MakeDirs ''/repo/x'',
         WriteFile ''/repo/x/index.html'' ''<title>X | Portfolio</title>'',
         Print ''  BUILD x/index.html (from case-study template)''])"
  by (simp add: generate_page_def dict_get_def Let_def startswith_def endswith_def
      strip_slashes_def path_join_def is_manually_managed_def load_template_def
      str_replace_def replace_from.simps format_value_def)

section \<open>Properties\<close>

text \<open>
  C1, as the code has it. When the interpreter allows \<open>limit\<close> nested calls, the parser
  returns a value that is a Sequence or a Mapping, never a scalar, or it raises
  \<^verbatim>\<open>RecursionError\<close>; it returns when \<open>limit\<close> is at least the number of lines plus the
  length of the text plus three. The value returned is a Sequence exactly when the loop
  of the root call of \<^verbatim>\<open>_parse_block\<close> itself reaches a line that is not blank, not a
  comment and begins with the dash-space marker, and a Mapping (possibly empty)
  otherwise; dash lines that only nested calls read do not count. In particular the
  root is a Mapping when no line of the text begins, after trimming, with the marker.
\<close>

theorem parse_yaml_root:
  "((\<exists>v. parse_yaml limit doc = Some (Inr v) \<and>
         ((\<exists>xs. v = Sequence xs) \<or> (\<exists>m. v = Mapping m))) \<or>
    parse_yaml limit doc = Some (Inl RecursionError)) \<and>
   (length (split_lines doc) + length doc + 3 \<le> limit \<longrightarrow>
      (\<exists>v. parse_yaml limit doc = Some (Inr v) \<and>
         ((\<exists>xs. v = Sequence xs) \<or> (\<exists>m. v = Mapping m)))) \<and>
   (parse_yaml limit doc = Some (Inr v) \<longrightarrow>
      (if \<exists>h \<in> set (block_heads (2 * length (split_lines doc) + 2) (limit - 1)
                        (split_lines doc) 0 (- 1)).
            dash_line (- 1) (split_lines doc ! h)
       then \<exists>xs. v = Sequence xs else \<exists>m. v = Mapping m)) \<and>
   (parse_yaml limit doc = Some (Inr v) \<and>
    (\<forall>l \<in> set (split_lines doc). \<not> startswith (strip l) ''- '') \<longrightarrow>
      (\<exists>m. v = Mapping m))"
proof (intro conjI impI)
  show "(\<exists>v. parse_yaml limit doc = Some (Inr v) \<and>
         ((\<exists>xs. v = Sequence xs) \<or> (\<exists>m. v = Mapping m))) \<or>
    parse_yaml limit doc = Some (Inl RecursionError)"
    using parse_yaml_total [of limit doc] parse_yaml_container [of limit doc] by blast
next
  assume "length (split_lines doc) + length doc + 3 \<le> limit"
  then show "\<exists>v. parse_yaml limit doc = Some (Inr v) \<and>
         ((\<exists>xs. v = Sequence xs) \<or> (\<exists>m. v = Mapping m))"
    using parse_yaml_enough [of doc limit] parse_yaml_container [of limit doc] by blast
next
  assume "parse_yaml limit doc = Some (Inr v)"
  then obtain i' where "parse_block (2 * length (split_lines doc) + 2) (limit - 1)
            (split_lines doc) 0 (- 1) [] = Some (Inr (v, i'))"
    by (auto dest: parse_yaml_InrD)
  then show "if \<exists>h \<in> set (block_heads (2 * length (split_lines doc) + 2) (limit - 1)
                        (split_lines doc) 0 (- 1)).
            dash_line (- 1) (split_lines doc ! h)
       then \<exists>xs. v = Sequence xs else \<exists>m. v = Mapping m"
    by (rule parse_block_kind)
next
  assume a: "parse_yaml limit doc = Some (Inr v) \<and>
    (\<forall>l \<in> set (split_lines doc). \<not> startswith (strip l) ''- '')"
  then obtain i' where r: "parse_block (2 * length (split_lines doc) + 2) (limit - 1)
            (split_lines doc) 0 (- 1) [] = Some (Inr (v, i'))"
    by (auto dest: parse_yaml_InrD)
  have "\<not> dash_line (- 1) (split_lines doc ! h)"
    if "h \<in> set (block_heads (2 * length (split_lines doc) + 2) (limit - 1)
                        (split_lines doc) 0 (- 1))" for h
  proof -
    from that have "h < length (split_lines doc)" by (rule block_heads_in_range)
    then have "split_lines doc ! h \<in> set (split_lines doc)" by simp
    with a show ?thesis by (auto simp: dash_line_def)
  qed
  with parse_block_kind [OF r] show "\<exists>m. v = Mapping m" by auto
qed

text \<open>
  The theorem at the text \<^verbatim>\<open>a:\<close>, \<^verbatim>\<open>  - b\<close>, whose dash line is read by the nested call
  only, so that the root loop visits line 0 alone and the root is a Mapping, and at the
  text \<^verbatim>\<open>a: 1\<close>, whose only line has no dash-space marker, with a limit of 8 that meets
  the bound.
\<close>

theorem parse_yaml_root_witness:
  "parse_yaml 3 ''a:\<newline>  - b'' = Some (Inr (Mapping [(''a'', Sequence [String ''b''])])) \<and>
   split_lines ''a:\<newline>  - b'' = [''a:'', ''  - b''] \<and>
   block_heads 6 2 [''a:'', ''  - b''] 0 (- 1) = [0] \<and>
   \<not> dash_line (- 1) ''a:'' \<and>
   length (split_lines ''a: 1'') + length ''a: 1'' + 3 \<le> (8::nat) \<and>
   parse_yaml 8 ''a: 1'' = Some (Inr (Mapping [(''a'', String ''1'')])) \<and>
   split_lines ''a: 1'' = [''a: 1''] \<and>
   \<not> startswith (strip ''a: 1'') ''- ''"
proof -
  have 1: "parse_yaml 3 ''a:\<newline>  - b'' = Some (Inr (Mapping [(''a'', Sequence [String ''b''])]))"
    by code_simp
  have 2: "split_lines ''a:\<newline>  - b'' = [''a:'', ''  - b'']"
    by code_simp
  have 3: "block_heads 6 2 [''a:'', ''  - b''] 0 (- 1) = [0]"
    by code_simp
  have 4: "\<not> dash_line (- 1) ''a:''"
    by code_simp
  have 5: "parse_yaml 8 ''a: 1'' = Some (Inr (Mapping [(''a'', String ''1'')]))"
    by code_simp
  have 6: "split_lines ''a: 1'' = [''a: 1'']"
    by code_simp
  have 7: "\<not> startswith (strip ''a: 1'') ''- ''"
    by code_simp
  have 8: "length (split_lines ''a: 1'') + length ''a: 1'' + 3 \<le> (8::nat)"
    by code_simp
  from parse_yaml_root [of 3 "''a:\<newline>  - b''" "Mapping [(''a'', Sequence [String ''b''])]"]
    parse_yaml_root [of 8 "''a: 1''" "Mapping [(''a'', String ''1'')]"]
    1 2 3 4 5 6 7 8
  show ?thesis by simp
qed

text \<open>
  C1, as the claim states it, fails: the text \<^verbatim>\<open>- a\<close> begins with a dash-space marker
  at the root, and the parser returns the Sequence \<^verbatim>\<open>['a']\<close> under every recursion limit
  that lets it return.
\<close>

theorem parse_yaml_root_sequence_counterexample:
  "\<forall>k. parse_yaml (3 + k) ''- a'' = Some (Inr (Sequence [String ''a'']))"
proof
  fix k
  have "parse_yaml 3 ''- a'' = Some (Inr (Sequence [String ''a'']))"
    by code_simp
  then show "parse_yaml (3 + k) ''- a'' = Some (Inr (Sequence [String ''a'']))"
    by (rule parse_yaml_at_least)
qed

text \<open>
  C2, as the code has it. First, the value of a key with an empty value whose first
  non-blank following line \<open>child\<close> is indented deeper than the key: it is a Sequence
  when that line begins with the dash-space marker (the list parser is called), and
  also when it does not but the loop of the nested call of \<^verbatim>\<open>_parse_block\<close> reaches a
  dash line later; it is a Mapping otherwise. Second, every call of the block parser
  that returns gives a Sequence when its own loop reaches a dash line and a Mapping
  otherwise. Third, the test is made at every line the loop reaches: at a dash line
  the block parser returns what the list parser returns from that line, whatever pairs
  \<open>acc\<close> it has collected so far.
\<close>

theorem nested_value_kind:
  "(i < length lines \<and> empty_key_line p (lines ! i) k \<and> child = skip_blank lines (i + 1) \<and>
    child < length lines \<and> get_indent (lines ! i) < get_indent (lines ! child) \<and>
    assigned_value d lines i p = Some v \<longrightarrow>
      (if startswith (strip (lines ! child)) ''- '' \<or>
          (\<exists>h \<in> set (block_heads (2 * length lines + 2) (d - 1) lines child
                         (get_indent (lines ! i))).
             dash_line (get_indent (lines ! i)) (lines ! h))
       then \<exists>xs. v = Sequence xs else \<exists>m. v = Mapping m)) \<and>
   (parse_block n d lines i p acc = Some (Inr (w, i')) \<longrightarrow>
      (if \<exists>h \<in> set (block_heads n d lines i p). dash_line p (lines ! h)
       then \<exists>xs. w = Sequence xs else \<exists>m. w = Mapping m)) \<and>
   (i < length lines \<and> dash_line p (lines ! i) \<longrightarrow>
      parse_block (Suc n) d lines i p acc =
        call d (\<lambda>d'. parse_list n d' lines i (get_indent (lines ! i)) []))"
proof (intro conjI impI)
  assume a: "i < length lines \<and> empty_key_line p (lines ! i) k \<and>
    child = skip_blank lines (i + 1) \<and> child < length lines \<and>
    get_indent (lines ! i) < get_indent (lines ! child) \<and>
    assigned_value d lines i p = Some v"
  then have act: "block_action lines i p =
     (if startswith (strip (lines ! child)) ''- ''
      then BNestList k child (get_indent (lines ! child))
      else BNestBlock k child (get_indent (lines ! i)))"
    using block_action_empty_key [of i lines p k child] by blast
  let ?F = "2 * length lines + 2"
  show "if startswith (strip (lines ! child)) ''- '' \<or>
          (\<exists>h \<in> set (block_heads ?F (d - 1) lines child (get_indent (lines ! i))).
             dash_line (get_indent (lines ! i)) (lines ! h))
       then \<exists>xs. v = Sequence xs else \<exists>m. v = Mapping m"
  proof (cases "startswith (strip (lines ! child)) ''- ''")
    case True
    with a act obtain i2
      where "call d (\<lambda>d'. parse_list ?F d' lines child (get_indent (lines ! child)) []) =
          Some (Inr (v, i2))"
      by (auto simp: assigned_value_def split: option.splits sum.splits)
    then have "\<exists>xs. v = Sequence xs" by (rule call_list_sequence)
    with True show ?thesis by simp
  next
    case False
    with a act obtain i2
      where "call d (\<lambda>d'. parse_block ?F d' lines child (get_indent (lines ! i)) []) =
          Some (Inr (v, i2))"
      by (auto simp: assigned_value_def split: option.splits sum.splits)
    then have "parse_block ?F (d - 1) lines child (get_indent (lines ! i)) [] = Some (Inr (v, i2))"
      by (auto simp: call_def split: if_splits)
    from parse_block_kind [OF this] False show ?thesis by simp
  qed
next
  assume "parse_block n d lines i p acc = Some (Inr (w, i'))"
  then show "if \<exists>h \<in> set (block_heads n d lines i p). dash_line p (lines ! h)
       then \<exists>xs. w = Sequence xs else \<exists>m. w = Mapping m"
    by (rule parse_block_kind)
next
  assume "i < length lines \<and> dash_line p (lines ! i)"
  then have "block_action lines i p = BList (get_indent (lines ! i))"
    by (simp add: block_action_list_iff)
  then show "parse_block (Suc n) d lines i p acc =
        call d (\<lambda>d'. parse_list n d' lines i (get_indent (lines ! i)) [])"
    by (simp add: parse_block_Suc)
qed

text \<open>
  The theorem on the lines \<^verbatim>\<open>a:\<close>, \<^verbatim>\<open>  b: 1\<close>, \<^verbatim>\<open>  - c\<close>: the first child line of \<^verbatim>\<open>a\<close>
  is a key line, the loop of the nested block visits lines 1 and 2, line 2 is a dash
  line, and the value of \<^verbatim>\<open>a\<close> is the Sequence \<^verbatim>\<open>['c']\<close>; on the lines \<^verbatim>\<open>a:\<close>, \<^verbatim>\<open>  b: 1\<close>,
  where the value is a Mapping; and at line 2 of the first text, where the block parser
  holds the pair for \<^verbatim>\<open>b\<close> and hands over to the list parser.
\<close>

theorem nested_value_kind_witness:
  "empty_key_line (- 1) ''a:'' ''a'' \<and>
   skip_blank [''a:'', ''  b: 1'', ''  - c''] (0 + 1) = 1 \<and>
   get_indent ''a:'' < get_indent ''  b: 1'' \<and>
   \<not> startswith (strip ''  b: 1'') ''- '' \<and>
   block_heads (2 * length [''a:'', ''  b: 1'', ''  - c''] + 2) (3 - 1)
     [''a:'', ''  b: 1'', ''  - c''] 1 (get_indent ''a:'') = [1, 2] \<and>
   dash_line (get_indent ''a:'') ''  - c'' \<and>
   assigned_value 3 [''a:'', ''  b: 1'', ''  - c''] 0 (- 1) = Some (Sequence [String ''c'']) \<and>
   skip_blank [''a:'', ''  b: 1''] (0 + 1) = 1 \<and>
   block_heads (2 * length [''a:'', ''  b: 1''] + 2) (3 - 1)
     [''a:'', ''  b: 1''] 1 (get_indent ''a:'') = [1] \<and>
   \<not> dash_line (get_indent ''a:'') ''  b: 1'' \<and>
   assigned_value 3 [''a:'', ''  b: 1''] 0 (- 1) = Some (Mapping [(''b'', String ''1'')]) \<and>
   parse_block 8 2 [''a:'', ''  b: 1'', ''  - c''] 1 0 [] = Some (Inr (Sequence [String ''c''], 3)) \<and>
   (\<exists>xs. Sequence [String ''c''] = Sequence xs) \<and>
   parse_block (Suc 7) 2 [''a:'', ''  b: 1'', ''  - c''] 2 0 [(''b'', String ''1'')] =
     call 2 (\<lambda>d'. parse_list 7 d' [''a:'', ''  b: 1'', ''  - c''] 2 (get_indent ''  - c'') [])"
proof -
  let ?L = "[''a:'', ''  b: 1'', ''  - c'']"
  let ?M = "[''a:'', ''  b: 1'']"
  have 1: "empty_key_line (- 1) ''a:'' ''a''" by code_simp
  have 2: "skip_blank ?L (0 + 1) = 1" by code_simp
  have 3: "get_indent ''a:'' < get_indent ''  b: 1''" by code_simp
  have 4: "\<not> startswith (strip ''  b: 1'') ''- ''" by code_simp
  have 5: "block_heads (2 * length ?L + 2) (3 - 1) ?L 1 (get_indent ''a:'') = [1, 2]"
    by code_simp
  have 6: "dash_line (get_indent ''a:'') ''  - c''" by code_simp
  have 7: "assigned_value 3 ?L 0 (- 1) = Some (Sequence [String ''c''])" by code_simp
  have 8: "skip_blank ?M (0 + 1) = 1" by code_simp
  have 9: "block_heads (2 * length ?M + 2) (3 - 1) ?M 1 (get_indent ''a:'') = [1]"
    by code_simp
  have 10: "\<not> dash_line (get_indent ''a:'') ''  b: 1''" by code_simp
  have 11: "assigned_value 3 ?M 0 (- 1) = Some (Mapping [(''b'', String ''1'')])" by code_simp
  have 12: "parse_block 8 2 ?L 1 0 [] = Some (Inr (Sequence [String ''c''], 3))" by code_simp
  have 13: "dash_line 0 (?L ! 2)" by code_simp
  from nested_value_kind [where lines = ?L and i = 1 and p = 0 and n = 8 and d = 2
      and acc = "[]" and w = "Sequence [String ''c'']" and i' = 3] 12
  have 14: "\<exists>xs. Sequence [String ''c''] = Sequence xs"
    by (simp split: if_splits)
  from nested_value_kind [where lines = ?L and i = 2 and p = 0 and n = 7 and d = 2
      and acc = "[(''b'', String ''1'')]"] 13
  have 15: "parse_block (Suc 7) 2 ?L 2 0 [(''b'', String ''1'')] =
     call 2 (\<lambda>d'. parse_list 7 d' ?L 2 (get_indent ''  - c'') [])"
    by simp
  from nested_value_kind [where lines = ?L and i = 0 and p = "- 1" and k = "''a''"
      and child = 1 and d = 3 and v = "Sequence [String ''c'']"]
    nested_value_kind [where lines = ?M and i = 0 and p = "- 1" and k = "''a''"
      and child = 1 and d = 3 and v = "Mapping [(''b'', String ''1'')]"]
    1 2 3 4 5 6 7 8 9 10 11 12 14 15
  show ?thesis by simp
qed

text \<open>
  C2, as the claim states it, fails: in the text \<^verbatim>\<open>a:\<close>, \<^verbatim>\<open>  b: 1\<close>, \<^verbatim>\<open>  - c\<close> the first
  non-blank child line of \<^verbatim>\<open>a\<close> does not begin with a dash-space marker, yet the value
  of \<^verbatim>\<open>a\<close> is a Sequence, and the pair for \<^verbatim>\<open>b\<close> collected before the dash line is gone.
\<close>

theorem parse_block_later_dash_counterexample:
  "(\<forall>k. parse_yaml (4 + k) ''a:\<newline>  b: 1\<newline>  - c\<newline>'' =
      Some (Inr (Mapping [(''a'', Sequence [String ''c''])]))) \<and>
   \<not> startswith (strip ''  b: 1'') ''- ''"
proof
  show "\<forall>k. parse_yaml (4 + k) ''a:\<newline>  b: 1\<newline>  - c\<newline>'' =
      Some (Inr (Mapping [(''a'', Sequence [String ''c''])]))"
  proof
    fix k
    have "parse_yaml 4 ''a:\<newline>  b: 1\<newline>  - c\<newline>'' =
      Some (Inr (Mapping [(''a'', Sequence [String ''c''])]))"
      by code_simp
    then show "parse_yaml (4 + k) ''a:\<newline>  b: 1\<newline>  - c\<newline>'' =
      Some (Inr (Mapping [(''a'', Sequence [String ''c''])]))"
      by (rule parse_yaml_at_least)
  qed
  show "\<not> startswith (strip ''  b: 1'') ''- ''"
    by code_simp
qed

text \<open>
  C3, as the code has it. A text in which no comma stands outside a quoted span is not
  split at all: it is the only fragment, and it is dropped when it is blank after
  trimming (it is then the trailing fragment). A text \<open>p\<close> followed by a comma, where
  \<open>p\<close> has no comma outside a quoted span and every quote opened in \<open>p\<close> is closed,
  gives \<open>p\<close> as the first fragment, blank or not, followed by the fragments of the
  rest: a fragment that is not the trailing one is always kept.
\<close>

theorem split_array_fragments:
  "(\<not> splits None s \<longrightarrow> split_array s = (if strip s = [] then [] else [s])) \<and>
   (\<not> splits None p \<and> in_quote_after None p = None \<longrightarrow>
      split_array (p @ CHR '','' # r) = p # split_array r)"
proof (intro conjI impI)
  assume "\<not> splits None s"
  then show "split_array s = (if strip s = [] then [] else [s])"
    by (simp add: split_array_def split_loop_no_split)
next
  assume a: "\<not> splits None p \<and> in_quote_after None p = None"
  then have "split_loop (p @ CHR '','' # r) [] [] None = split_loop r [p] [] None"
    using split_loop_first [of None p r "[]" "[]"] by simp
  also have "\<dots> = ([p] @ fst (split_loop r [] [] None), snd (split_loop r [] [] None))"
    using split_loop_items [of r "[p]" "[]" "[]" None] by simp
  finally show "split_array (p @ CHR '','' # r) = p # split_array r"
    by (simp add: split_array_def split: prod.splits)
qed

text \<open>
  The theorem at the quoted text \<^verbatim>\<open>"a,b"\<close>, which is one fragment, and at the blank
  fragment of one space before a comma, which is kept.
\<close>

theorem split_array_fragments_witness:
  "\<not> splits None [CHR 0x22, CHR ''a'', CHR '','', CHR ''b'', CHR 0x22] \<and>
   split_array [CHR 0x22, CHR ''a'', CHR '','', CHR ''b'', CHR 0x22] =
     [[CHR 0x22, CHR ''a'', CHR '','', CHR ''b'', CHR 0x22]] \<and>
   \<not> splits None '' '' \<and> in_quote_after None '' '' = None \<and>
   split_array ('' '' @ CHR '','' # ''b'') = '' '' # split_array ''b''"
  using split_array_fragments
    [of "[CHR 0x22, CHR ''a'', CHR '','', CHR ''b'', CHR 0x22]" "'' ''" "''b''"]
  by (simp add: strip_def isspace_def)

text \<open>
  C3, as the claim states it, fails: in \<^verbatim>\<open>a,,b\<close> the second fragment is empty, hence
  blank after trimming, it is not the trailing one, and it is kept.
\<close>

theorem split_array_blank_fragment_counterexample:
  "split_array ''a,,b'' = [''a'', [], ''b''] \<and> strip [] = []"
  by (simp add: split_array_def strip_def isspace_def)

text \<open>
  C4, as the code has it. When the interpreter allows \<open>limit\<close> nested calls, the parser
  returns a value or raises \<^verbatim>\<open>RecursionError\<close>, and nothing else: no other exception and
  no run without end. It returns a value whenever \<open>limit\<close> is at least the number of
  lines plus the length of the text plus three. The pass is forward: with a bound of
  twice the number of remaining lines plus two on the steps in a row, each of the
  three loops returns an index not before its start index or raises
  \<^verbatim>\<open>RecursionError\<close>, and a larger bound gives the same result.
\<close>

theorem parse_total:
  "((\<exists>v. parse_yaml limit doc = Some (Inr v)) \<or>
    parse_yaml limit doc = Some (Inl RecursionError)) \<and>
   (length (split_lines doc) + length doc + 3 \<le> limit \<longrightarrow>
      (\<exists>v. parse_yaml limit doc = Some (Inr v))) \<and>
   (2 * (length lines - i) + 2 \<le> n \<longrightarrow>
      (\<exists>v i'. parse_block n d lines i p acc = Some (Inr (v, i')) \<and> i \<le> i') \<or>
      parse_block n d lines i p acc = Some (Inl RecursionError)) \<and>
   (2 * (length lines - i) + 1 \<le> n \<longrightarrow>
      (\<exists>v i'. parse_list n d lines i p vs = Some (Inr (v, i')) \<and> i \<le> i') \<or>
      parse_list n d lines i p vs = Some (Inl RecursionError)) \<and>
   (2 * (length lines - i) + 1 \<le> n \<longrightarrow>
      (\<exists>obj' j'. parse_item n d lines i p obj = Some (Inr (obj', j')) \<and> i \<le> j') \<or>
      parse_item n d lines i p obj = Some (Inl RecursionError)) \<and>
   parse_block (2 * length lines + 2 + k) d lines 0 p acc =
     parse_block (2 * length lines + 2) d lines 0 p acc"
  using parse_yaml_total [of limit doc] parse_yaml_enough [of doc limit]
    parse_block_total [of lines i n d p acc] parse_list_total [of lines i n d p vs]
    parse_item_total [of lines i n d p obj] parse_block_fuel_independent [of lines k d p acc]
  by blast

text \<open>
  The theorem at the text \<^verbatim>\<open>a: 1\<close> with a limit of 8, which meets the bound, and at its
  one line with a bound of 4 on the steps.
\<close>

theorem parse_total_witness:
  "(\<exists>v. parse_yaml 8 ''a: 1'' = Some (Inr v)) \<and>
   length (split_lines ''a: 1'') + length ''a: 1'' + 3 \<le> (8::nat) \<and>
   2 * (length [''a: 1''] - 0) + 2 \<le> (4::nat) \<and>
   (\<exists>v i'. parse_block 4 1 [''a: 1''] 0 (- 1) [] = Some (Inr (v, i')) \<and> 0 \<le> i') \<and>
   (\<exists>v i'. parse_list 4 1 [''a: 1''] 0 (- 1) [] = Some (Inr (v, i')) \<and> 0 \<le> i') \<and>
   (\<exists>obj' j'. parse_item 4 1 [''a: 1''] 0 (- 1) [] = Some (Inr (obj', j')) \<and> 0 \<le> j')"
proof -
  have 1: "length (split_lines ''a: 1'') + length ''a: 1'' + 3 \<le> (8::nat)"
    by code_simp
  have 2: "parse_block 4 1 [''a: 1''] 0 (- 1) [] \<noteq> Some (Inl RecursionError)"
    by code_simp
  have 3: "parse_list 4 1 [''a: 1''] 0 (- 1) [] \<noteq> Some (Inl RecursionError)"
    by code_simp
  have 4: "parse_item 4 1 [''a: 1''] 0 (- 1) [] \<noteq> Some (Inl RecursionError)"
    by code_simp
  from parse_total [where limit = 8 and doc = "''a: 1''" and lines = "[''a: 1'']" and i = 0
      and n = 4 and d = 1 and p = "- 1" and acc = "[]" and vs = "[]" and obj = "[]" and k = 0]
    1 2 3 4
  show ?thesis by simp
qed

text \<open>
  C4, as the claim states it, fails: \<^verbatim>\<open>_parse_scalar\<close> calls itself once for every pair of
  brackets around an inline array, so for every recursion limit there is a one-line text
  on which the parser raises \<^verbatim>\<open>RecursionError\<close>: the key \<^verbatim>\<open>a\<close> followed by more nested
  pairs of brackets than the limit. With a limit of 1000, the default of the
  interpreter, 1000 pairs do.
\<close>

theorem parse_deep_brackets_counterexample:
  "(\<forall>limit k. parse_yaml limit (''a: '' @ brackets (Suc (limit + k))) =
      Some (Inl RecursionError)) \<and>
   parse_yaml 1000 (''a: '' @ replicate 1000 (CHR ''['') @ replicate 1000 (CHR '']'')) =
     Some (Inl RecursionError)"
proof
  show "\<forall>limit k. parse_yaml limit (''a: '' @ brackets (Suc (limit + k))) =
      Some (Inl RecursionError)"
    by (intro allI parse_yaml_brackets) simp_all
  show "parse_yaml 1000 (''a: '' @ replicate 1000 (CHR ''['') @ replicate 1000 (CHR '']'')) =
     Some (Inl RecursionError)"
    using parse_yaml_brackets [of 1000 1000] by (simp add: brackets_def)
qed

text \<open>
  C5, as the code has it. Scalar resolution gives Boolean(true) exactly for the two
  spellings \<^verbatim>\<open>true\<close> and \<^verbatim>\<open>True\<close> of the trimmed fragment, and Boolean(false) exactly
  for \<^verbatim>\<open>false\<close> and \<^verbatim>\<open>False\<close>, whatever the recursion depth left. Other spellings,
  \<^verbatim>\<open>TRUE\<close> among them, are not booleans.
\<close>

theorem parse_scalar_boolean:
  "(parse_scalar depth v = Inr (Boolean True) \<longleftrightarrow> strip v = ''true'' \<or> strip v = ''True'') \<and>
   (parse_scalar depth v = Inr (Boolean False) \<longleftrightarrow> strip v = ''false'' \<or> strip v = ''False'')"
  by (simp add: parse_scalar_eq [of depth v] Let_def split: sum.splits)

text \<open>
  C5, as the claim states it, fails: the fragments \<^verbatim>\<open>TRUE\<close> and \<^verbatim>\<open>FALSE\<close> equal the
  words ``true'' and ``false'' up to letter case, and both resolve to Strings.
\<close>

theorem parse_scalar_upper_case_counterexample:
  "\<forall>depth. parse_scalar depth ''TRUE'' = Inr (String ''TRUE'') \<and>
           parse_scalar depth ''FALSE'' = Inr (String ''FALSE'')"
  by (simp add: parse_scalar_eq strip_def isspace_def startswith_def endswith_def)

text \<open>
  C6 fails in the code. The look-ahead after a key with an empty value passes blank
  lines only, so a comment line between the key and its nested block is taken as the
  line that decides the nesting. In the block parser: with the comment line \<^verbatim>\<open># note\<close>
  between \<^verbatim>\<open>a:\<close> and \<^verbatim>\<open>  b: 1\<close> the key \<^verbatim>\<open>a\<close> gets the empty string and \<^verbatim>\<open>b\<close> becomes a key
  of the root, and without it \<^verbatim>\<open>b\<close> is nested under \<^verbatim>\<open>a\<close>. In the list parser: with a
  comment line between \<^verbatim>\<open>tags:\<close> and \<^verbatim>\<open>- a\<close> the key \<^verbatim>\<open>tags\<close> gets the empty string and
  \<^verbatim>\<open>a\<close> becomes an element of the outer list, and without it \<^verbatim>\<open>tags\<close> is the list of
  \<^verbatim>\<open>a\<close>. This holds under every recursion limit from 4 on.
\<close>

theorem comment_line_changes_nesting:
  "parse_yaml (4 + k) ''a:\<newline># note\<newline>  b: 1\<newline>'' =
     Some (Inr (Mapping [(''a'', String []), (''b'', String ''1'')])) \<and>
   parse_yaml (4 + k) ''a:\<newline>  b: 1\<newline>'' =
     Some (Inr (Mapping [(''a'', Mapping [(''b'', String ''1'')])])) \<and>
   parse_yaml (4 + k) ''items:\<newline>  - t: X\<newline>    tags:\<newline>    # c\<newline>      - a\<newline>'' =
     Some (Inr (Mapping [(''items'', Sequence
       [Mapping [(''t'', String ''X''), (''tags'', String [])], String ''a''])])) \<and>
   parse_yaml (4 + k) ''items:\<newline>  - t: X\<newline>    tags:\<newline>      - a\<newline>'' =
     Some (Inr (Mapping [(''items'', Sequence
       [Mapping [(''t'', String ''X''), (''tags'', Sequence [String ''a''])]])]))"
proof -
  have 1: "parse_yaml 4 ''a:\<newline># note\<newline>  b: 1\<newline>'' =
     Some (Inr (Mapping [(''a'', String []), (''b'', String ''1'')]))"
    by code_simp
  have 2: "parse_yaml 4 ''a:\<newline>  b: 1\<newline>'' =
     Some (Inr (Mapping [(''a'', Mapping [(''b'', String ''1'')])]))"
    by code_simp
  have 3: "parse_yaml 4 ''items:\<newline>  - t: X\<newline>    tags:\<newline>    # c\<newline>      - a\<newline>'' =
     Some (Inr (Mapping [(''items'', Sequence
       [Mapping [(''t'', String ''X''), (''tags'', String [])], String ''a''])]))"
    by code_simp
  have 4: "parse_yaml 4 ''items:\<newline>  - t: X\<newline>    tags:\<newline>      - a\<newline>'' =
     Some (Inr (Mapping [(''items'', Sequence
       [Mapping [(''t'', String ''X''), (''tags'', Sequence [String ''a''])]])]))"
    by code_simp
  from 1 2 3 4 show ?thesis
    by (intro conjI parse_yaml_at_least)
qed



text \<open>
  C8. For the text \<^verbatim>\<open>items:\<close>, \<^verbatim>\<open>  - title: X\<close>, \<^verbatim>\<open>    link: /x\<close>, \<^verbatim>\<open>  - title: Y\<close>,
  \<^verbatim>\<open>    link: /y\<close> (five lines, each ended by a line feed) the parser returns a Mapping
  whose only key \<^verbatim>\<open>items\<close> holds a Sequence of exactly two Mappings, first
  \<^verbatim>\<open>{title: "X", link: "/x"}\<close>, then \<^verbatim>\<open>{title: "Y", link: "/y"}\<close>, under every
  recursion limit from 3 on.
\<close>

theorem parse_yaml_items_example:
  "parse_yaml (3 + k) ''items:\<newline>  - title: X\<newline>    link: /x\<newline>  - title: Y\<newline>    link: /y\<newline>'' =
     Some (Inr (Mapping [(''items'', Sequence
       [Mapping [(''title'', String ''X''), (''link'', String ''/x'')],
        Mapping [(''title'', String ''Y''), (''link'', String ''/y'')]])]))"
proof -
  have "parse_yaml 3 ''items:\<newline>  - title: X\<newline>    link: /x\<newline>  - title: Y\<newline>    link: /y\<newline>'' =
     Some (Inr (Mapping [(''items'', Sequence
       [Mapping [(''title'', String ''X''), (''link'', String ''/x'')],
        Mapping [(''title'', String ''Y''), (''link'', String ''/y'')]])]))"
    by code_simp
  then show ?thesis by (rule parse_yaml_at_least)
qed

text \<open>
  C9 fails in the code. A link that counts as true and is not a string does not begin
  with \<^verbatim>\<open>/\<close>, and the generator does not skip the item: \<^verbatim>\<open>link.startswith\<close> raises
  \<^verbatim>\<open>AttributeError\<close>, which nothing catches. The parser produces such links: \<^verbatim>\<open>link: true\<close>
  is the Boolean \<^verbatim>\<open>True\<close> and \<^verbatim>\<open>link: [a, b]\<close> is a Sequence.
\<close>

theorem generate_page_non_string_link_raises:
  "parse_yaml (3 + k) ''initiatives:\<newline>  - title: X\<newline>    link: true\<newline>'' =
     Some (Inr (Mapping [(''initiatives'', Sequence
       [Mapping [(''title'', String ''X''), (''link'', Boolean True)]])])) \<and>
   parse_yaml (4 + k) ''initiatives:\<newline>  - title: X\<newline>    link: [a, b]\<newline>'' =
     Some (Inr (Mapping [(''initiatives'', Sequence
       [Mapping [(''title'', String ''X''),
                 (''link'', Sequence [String ''a'', String ''b''])]])])) \<and>
   generate_page repo_root repr files
     (Mapping [(''title'', String ''X''), (''link'', Boolean True)]) template_name =
     Inl AttributeError \<and>
   generate_page repo_root repr files
     (Mapping [(''title'', String ''X''), (''link'', Sequence [String ''a'', String ''b''])])
     template_name =
     Inl AttributeError"
proof -
  have 1: "parse_yaml 3 ''initiatives:\<newline>  - title: X\<newline>    link: true\<newline>'' =
     Some (Inr (Mapping [(''initiatives'', Sequence
       [Mapping [(''title'', String ''X''), (''link'', Boolean True)]])]))"
    by code_simp
  have 2: "parse_yaml 4 ''initiatives:\<newline>  - title: X\<newline>    link: [a, b]\<newline>'' =
     Some (Inr (Mapping [(''initiatives'', Sequence
       [Mapping [(''title'', String ''X''),
                 (''link'', Sequence [String ''a'', String ''b''])]])]))"
    by code_simp
  have 3: "generate_page repo_root repr files
     (Mapping [(''title'', String ''X''), (''link'', Boolean True)]) template_name =
     Inl AttributeError"
    by (simp add: generate_page_def dict_get_def Let_def)
  have 4: "generate_page repo_root repr files
     (Mapping [(''title'', String ''X''), (''link'', Sequence [String ''a'', String ''b''])])
     template_name =
     Inl AttributeError"
    by (simp add: generate_page_def dict_get_def Let_def)
  from 1 2 3 4 show ?thesis
    by (intro conjI parse_yaml_at_least)
qed

text \<open>
  C10. Scalar resolution of a fragment that is exactly one quote character, a lone
  double quote or a lone single quote, is the empty String: the test for surrounding
  quotes does not ask for two characters, so the one character is both the opening
  and the closing quote and \<^verbatim>\<open>val[1:-1]\<close> is empty. No nested call is made, so this holds
  whatever the recursion depth left.
\<close>

theorem parse_scalar_lone_quote:
  "parse_scalar depth [CHR 0x22] = Inr (String []) \<and>
   parse_scalar depth [CHR 0x27] = Inr (String [])"
  by (simp add: parse_scalar_eq strip_def isspace_def startswith_def endswith_def
      interior_def)

end
